theory Spec2Isabelle
  imports Main
begin

section \<open>The funnel of \<^verbatim>\<open>src/funnel.ts\<close>\<close>

text \<open>
  The funnel is a closure over four mutable variables (\<^verbatim>\<open>burstTimeoutId\<close>,
  \<^verbatim>\<open>delayTimeoutId\<close>, \<^verbatim>\<open>preparedData\<close>, \<^verbatim>\<open>burstStartTimestamp\<close>) and the
  immutable timing policy. It talks to its host through \<^verbatim>\<open>setTimeout\<close>,
  \<^verbatim>\<open>clearTimeout\<close>, \<^verbatim>\<open>Date.now\<close> and the caller's \<^verbatim>\<open>execute\<close>.

  The embedding passes the state explicitly. Besides the four variables the state record holds
  the part of the host the funnel can touch: the host's pending timeouts, the next timer handle,
  the host clock, and the list of the invocations of \<^verbatim>\<open>execute\<close> made so far. The reducer
  and the executor are the caller's, and parameters of the model.

  Conventions.
  \<^item> \<^verbatim>\<open>undefined\<close> is \<open>None\<close>. The funnel stores whatever the reducer returns, and an
    \<^verbatim>\<open>undefined\<close> result is the empty payload: \<open>reduceArgs :: 'd option \<Rightarrow> 'a \<Rightarrow> 'd option\<close>,
    where \<open>'a\<close> is the argument list of one \<^verbatim>\<open>call\<close>.
  \<^item> Durations and timestamps are whole milliseconds (\<open>int\<close>); negative durations are allowed,
    as in the source, which checks no bounds.
  \<^item> One synchronous frame (one \<^verbatim>\<open>call\<close>, \<^verbatim>\<open>flush\<close>, \<^verbatim>\<open>cancel\<close> or timer callback) runs at
    one value of the host clock: every \<^verbatim>\<open>Date.now()\<close> in it reads \<open>clock s\<close>, and a timeout set in
    it is set at \<open>clock s\<close>.
  \<^item> A function of the funnel returns or throws; what it did to the state before it threw
    stays done. So each returns an \<open>outcome\<close> and the state. The throws are the executor's;
    the reducer is a function that returns.
  \<^item> Every invocation of \<^verbatim>\<open>execute\<close> is recorded in \<open>executed\<close> as it is entered, with what
    \<^verbatim>\<open>preparedData\<close> holds at that moment. What the executor then does is the parameter
    \<open>execute\<close>: it returns or throws, and it may have called the funnel's methods meanwhile,
    which shows as a change of the state.
\<close>

subsection \<open>Timing policy\<close>

datatype invoked_at = Both | End | Start

record timing_policy =
  invokedAt :: "invoked_at option"
  burstCoolDownMs :: "int option"
  maxBurstDurationMs :: "int option"
  delayMs :: "int option"

text \<open>The destructuring default \<^verbatim>\<open>invokedAt = "end"\<close> of the parameter list.\<close>

definition invokedAtOrDefault :: "timing_policy \<Rightarrow> invoked_at" where
  "invokedAtOrDefault p = (case invokedAt p of None \<Rightarrow> End | Some e \<Rightarrow> e)"

subsection \<open>Host: timeouts, clock, executor\<close>

datatype handler = HandleBurstEnd | HandleDelayEnd

record timeout =
  tid :: nat
  callback :: handler
  setAt :: int
  ms :: int

record 'd execution =
  execAt :: int
  execParam :: 'd
  execPending :: "'d option"

record 'd funnel =
  burstTimeoutId :: "nat option"
  delayTimeoutId :: "nat option"
  preparedData :: "'d option"
  burstStartTimestamp :: "int option"
  timers :: "timeout list"
  nextTimerId :: nat
  clock :: int
  executed :: "'d execution list"

text \<open>The state right after \<^verbatim>\<open>funnel(reduceArgs, execute, policy)\<close> returns, at host time \<open>t0\<close>.\<close>

definition init :: "int \<Rightarrow> 'd funnel" where
  "init t0 = \<lparr>burstTimeoutId = None, delayTimeoutId = None, preparedData = None,
     burstStartTimestamp = None, timers = [], nextTimerId = 0, clock = t0, executed = []\<rparr>"

text \<open>\<^verbatim>\<open>setTimeout(handler, ms)\<close>: a fresh handle, and one more pending timeout.\<close>

definition setTimeout :: "handler \<Rightarrow> int \<Rightarrow> 'd funnel \<Rightarrow> nat \<times> 'd funnel" where
  "setTimeout h d s =
     (nextTimerId s,
      s\<lparr>timers := timers s @ [\<lparr>tid = nextTimerId s, callback = h, setAt = clock s, ms = d\<rparr>],
        nextTimerId := Suc (nextTimerId s)\<rparr>)"

text \<open>\<^verbatim>\<open>clearTimeout(id)\<close>: a no-op on \<^verbatim>\<open>undefined\<close> and on a handle that is no longer pending.\<close>

definition clearTimeout :: "nat option \<Rightarrow> 'd funnel \<Rightarrow> 'd funnel" where
  "clearTimeout ido s =
     (case ido of None \<Rightarrow> s
      | Some i \<Rightarrow> s\<lparr>timers := filter (\<lambda>t. tid t \<noteq> i) (timers s)\<rparr>)"

text \<open>The record of \<^verbatim>\<open>execute(param)\<close> being entered.\<close>

definition entered :: "'d \<Rightarrow> 'd funnel \<Rightarrow> 'd funnel" where
  "entered param s =
     s\<lparr>executed := executed s @
         [\<lparr>execAt = clock s, execParam = param, execPending = preparedData s\<rparr>]\<rparr>"

text \<open>
  The caller's executor: given the payload and the state it is entered in, how it ends and the
  state it leaves.
\<close>

datatype outcome = Returned | Threw

type_synonym 'd executor = "'d \<Rightarrow> 'd funnel \<Rightarrow> outcome \<times> 'd funnel"

subsection \<open>The funnel's functions\<close>

text \<open>The last part of \<^verbatim>\<open>invoke\<close> (lines 145 to 147), reached when the executor has returned.\<close>

definition armDelay :: "timing_policy \<Rightarrow> 'd funnel \<Rightarrow> 'd funnel" where
  "armDelay p s =
     (case delayMs p of
        None \<Rightarrow> s
      | Some d \<Rightarrow> (case setTimeout HandleDelayEnd d s of
                    (i, s') \<Rightarrow> s'\<lparr>delayTimeoutId := Some i\<rparr>))"

definition invoke :: "timing_policy \<Rightarrow> 'd executor \<Rightarrow> 'd funnel \<Rightarrow> outcome \<times> 'd funnel" where
  "invoke p execute s =
     (case preparedData s of
        None \<Rightarrow> (Returned, s)
      | Some param \<Rightarrow>
          (case execute param (entered param (s\<lparr>preparedData := None\<rparr>)) of
             (Threw, s') \<Rightarrow> (Threw, s')
           | (Returned, s') \<Rightarrow> (Returned, armDelay p s')))"

definition handleDelayEnd :: "timing_policy \<Rightarrow> 'd executor \<Rightarrow> 'd funnel \<Rightarrow> outcome \<times> 'd funnel" where
  "handleDelayEnd p execute s =
     (let s1 = (clearTimeout (delayTimeoutId s) s)\<lparr>delayTimeoutId := None\<rparr>
      in if burstTimeoutId s1 \<noteq> None then (Returned, s1) else invoke p execute s1)"

definition handleBurstEnd :: "timing_policy \<Rightarrow> 'd executor \<Rightarrow> 'd funnel \<Rightarrow> outcome \<times> 'd funnel" where
  "handleBurstEnd p execute s =
     (let s1 = (clearTimeout (burstTimeoutId s) s)
                 \<lparr>burstTimeoutId := None, burstStartTimestamp := None\<rparr>
      in if delayTimeoutId s1 \<noteq> None then (Returned, s1) else invoke p execute s1)"

definition isIdle :: "'d funnel \<Rightarrow> bool" where
  "isIdle s = (burstTimeoutId s = None \<and> delayTimeoutId s = None)"

text \<open>
  The last part of \<^verbatim>\<open>call\<close> (lines 213 to 227): clear the burst timeout, keep or record the
  start of the burst, compute the remaining time and set the timeout again.
\<close>

definition burstRemainingMs :: "timing_policy \<Rightarrow> int \<Rightarrow> int \<Rightarrow> int \<Rightarrow> int" where
  "burstRemainingMs p coolDown now start =
     (case maxBurstDurationMs p of
        None \<Rightarrow> coolDown
      | Some m \<Rightarrow> min coolDown (m - (now - start)))"

definition armBurst :: "timing_policy \<Rightarrow> int \<Rightarrow> 'd funnel \<Rightarrow> 'd funnel" where
  "armBurst p coolDown s =
     (let s1 = clearTimeout (burstTimeoutId s) s;
          start = (case burstStartTimestamp s1 of None \<Rightarrow> clock s1 | Some b \<Rightarrow> b);
          s2 = s1\<lparr>burstStartTimestamp := Some start\<rparr>
      in case setTimeout HandleBurstEnd (burstRemainingMs p coolDown (clock s2) start) s2 of
           (i, s3) \<Rightarrow> s3\<lparr>burstTimeoutId := Some i\<rparr>)"

text \<open>
  \<^verbatim>\<open>call\<close>. A throw of the executor inside \<^verbatim>\<open>invoke\<close> leaves \<^verbatim>\<open>call\<close> at once, before the burst
  part (lines 199 to 227).
\<close>

definition call ::
  "timing_policy \<Rightarrow> ('d option \<Rightarrow> 'a \<Rightarrow> 'd option) \<Rightarrow> 'd executor \<Rightarrow> 'a \<Rightarrow> 'd funnel \<Rightarrow>
     outcome \<times> 'd funnel" where
  "call p reduceArgs execute args s =
     (let wasIdle = (burstTimeoutId s = None \<and> delayTimeoutId s = None);
          s1 = (if invokedAtOrDefault p \<noteq> Start \<or> wasIdle
                then s\<lparr>preparedData := reduceArgs (preparedData s) args\<rparr> else s)
      in case (if invokedAtOrDefault p \<noteq> End \<and> wasIdle then invoke p execute s1
               else (Returned, s1)) of
           (Threw, s2) \<Rightarrow> (Threw, s2)
         | (Returned, s2) \<Rightarrow>
             (Returned,
              case burstCoolDownMs p of
                None \<Rightarrow> s2
              | Some coolDown \<Rightarrow>
                  if burstTimeoutId s2 = None \<and> \<not> wasIdle then s2
                  else armBurst p coolDown s2))"

definition cancel :: "'d funnel \<Rightarrow> 'd funnel" where
  "cancel s =
     (let s1 = (clearTimeout (burstTimeoutId s) s)
                 \<lparr>burstTimeoutId := None, burstStartTimestamp := None\<rparr>;
          s2 = (clearTimeout (delayTimeoutId s1) s1)\<lparr>delayTimeoutId := None\<rparr>
      in s2\<lparr>preparedData := None\<rparr>)"

definition flush :: "timing_policy \<Rightarrow> 'd executor \<Rightarrow> 'd funnel \<Rightarrow> outcome \<times> 'd funnel" where
  "flush p execute s =
     (case handleBurstEnd p execute s of
        (Threw, s1) \<Rightarrow> (Threw, s1)
      | (Returned, s1) \<Rightarrow> handleDelayEnd p execute s1)"

subsection \<open>The host's event loop\<close>

text \<open>
  What can happen to a funnel: its owner calls one of the three methods, or the host fires a
  pending timeout. Every event carries the host time of its frame. The host never goes back in
  time, fires only a timeout that is pending, never before \<open>setAt + ms\<close>, and removes it from
  the pending ones before it runs the callback. An event the host cannot produce gives \<open>None\<close>.
  An exception leaves the frame, to the owner or to the host, and the state stays as the frame
  left it.
\<close>

datatype 'a event = Call int 'a | Fire int nat | Flush int | Cancel int

fun eventTime :: "'a event \<Rightarrow> int" where
  "eventTime (Call t a) = t"
| "eventTime (Fire t i) = t"
| "eventTime (Flush t) = t"
| "eventTime (Cancel t) = t"

definition runCallback ::
  "timing_policy \<Rightarrow> 'd executor \<Rightarrow> handler \<Rightarrow> 'd funnel \<Rightarrow> outcome \<times> 'd funnel" where
  "runCallback p execute h s =
     (case h of
        HandleBurstEnd \<Rightarrow> handleBurstEnd p execute s
      | HandleDelayEnd \<Rightarrow> handleDelayEnd p execute s)"

definition fire :: "timing_policy \<Rightarrow> 'd executor \<Rightarrow> nat \<Rightarrow> 'd funnel \<Rightarrow> 'd funnel option" where
  "fire p execute i s =
     (case find (\<lambda>t. tid t = i) (timers s) of
        None \<Rightarrow> None
      | Some t \<Rightarrow>
          if clock s < setAt t + ms t then None
          else Some (snd (runCallback p execute (callback t)
                            (s\<lparr>timers := filter (\<lambda>u. tid u \<noteq> i) (timers s)\<rparr>))))"

definition step ::
  "timing_policy \<Rightarrow> ('d option \<Rightarrow> 'a \<Rightarrow> 'd option) \<Rightarrow> 'd executor \<Rightarrow> 'a event \<Rightarrow> 'd funnel \<Rightarrow>
     'd funnel option" where
  "step p reduceArgs execute e s =
     (if eventTime e < clock s then None
      else (let s0 = s\<lparr>clock := eventTime e\<rparr>
            in case e of
                 Call t a \<Rightarrow> Some (snd (call p reduceArgs execute a s0))
               | Fire t i \<Rightarrow> fire p execute i s0
               | Flush t \<Rightarrow> Some (snd (flush p execute s0))
               | Cancel t \<Rightarrow> Some (cancel s0)))"

fun run ::
  "timing_policy \<Rightarrow> ('d option \<Rightarrow> 'a \<Rightarrow> 'd option) \<Rightarrow> 'd executor \<Rightarrow> 'a event list \<Rightarrow>
     'd funnel \<Rightarrow> 'd funnel option" where
  "run p reduceArgs execute [] s = Some s"
| "run p reduceArgs execute (e # es) s =
     (case step p reduceArgs execute e s of
        None \<Rightarrow> None
      | Some s' \<Rightarrow> run p reduceArgs execute es s')"

subsection \<open>Vocabulary of the properties\<close>

text \<open>
  Two properties an executor may have: it never calls back into the funnel, so that it leaves
  the state as it found it; it never throws.
\<close>

definition nonReentrant :: "'d executor \<Rightarrow> bool" where
  "nonReentrant execute = (\<forall>param s. snd (execute param s) = s)"

definition neverThrows :: "'d executor \<Rightarrow> bool" where
  "neverThrows execute = (\<forall>param s. fst (execute param s) = Returned)"

text \<open>
  The handles the funnel holds and the host's pending timeouts describe each other: every
  pending timeout is the one whose handle the funnel holds for that callback, and every handle
  held is the handle of a pending timeout. No timeout is leaked and none is forgotten.
\<close>

definition owned :: "'d funnel \<Rightarrow> bool" where
  "owned s =
     (distinct (map tid (timers s)) \<and>
      (\<forall>t \<in> set (timers s). tid t < nextTimerId s \<and>
         (callback t = HandleBurstEnd \<longrightarrow> burstTimeoutId s = Some (tid t)) \<and>
         (callback t = HandleDelayEnd \<longrightarrow> delayTimeoutId s = Some (tid t))) \<and>
      (burstTimeoutId s = None \<or>
       (\<exists>t \<in> set (timers s). burstTimeoutId s = Some (tid t) \<and> callback t = HandleBurstEnd)) \<and>
      (delayTimeoutId s = None \<or>
       (\<exists>t \<in> set (timers s). delayTimeoutId s = Some (tid t) \<and> callback t = HandleDelayEnd)))"

fun isCall :: "'a event \<Rightarrow> bool" where
  "isCall (Call t a) = True"
| "isCall _ = False"

fun isFire :: "'a event \<Rightarrow> bool" where
  "isFire (Fire t i) = True"
| "isFire _ = False"

fun callArgs :: "'a event list \<Rightarrow> 'a list" where
  "callArgs [] = []"
| "callArgs (Call t a # es) = a # callArgs es"
| "callArgs (_ # es) = callArgs es"

text \<open>
  The left fold of argument lists by the reducer. The accumulator starts as \<^verbatim>\<open>undefined\<close>
  when \<open>acc = None\<close>; the fold of no call at all is still \<open>acc\<close>.
\<close>

definition foldArgs ::
  "('d option \<Rightarrow> 'a \<Rightarrow> 'd option) \<Rightarrow> 'd option \<Rightarrow> 'a list \<Rightarrow> 'd option" where
  "foldArgs reduceArgs acc as = foldl reduceArgs acc as"



text \<open>Consecutive timestamps are at least \<open>d\<close> apart.\<close>

fun minGap :: "int \<Rightarrow> int list \<Rightarrow> bool" where
  "minGap d (x # y # ts) = (d \<le> y - x \<and> minGap d (y # ts))"
| "minGap d ts = True"

definition execTimes :: "'d funnel \<Rightarrow> int list" where
  "execTimes s = map execAt (executed s)"

text \<open>
  Invariants of the event loop. \<open>delayHolds\<close>: the last execution is at least \<open>d\<close> old, or a
  delay timeout is pending that is not due before it is. \<open>quiet\<close>: no delay timeout is in use and
  no pending timeout is due before \<open>W\<close> after any call made so far.
\<close>

definition delayHolds :: "int \<Rightarrow> 'd funnel \<Rightarrow> bool" where
  "delayHolds d s =
     (executed s = [] \<or> execAt (last (executed s)) + d \<le> clock s \<or>
      (\<exists>t \<in> set (timers s). callback t = HandleDelayEnd \<and>
         execAt (last (executed s)) + d \<le> setAt t + ms t))"

definition spacing :: "int \<Rightarrow> 'd funnel \<Rightarrow> bool" where
  "spacing d s = (owned s \<and> minGap d (execTimes s) \<and> delayHolds d s)"

definition quiet :: "int \<Rightarrow> 'a event list \<Rightarrow> 'd funnel \<Rightarrow> bool" where
  "quiet W past s =
     (owned s \<and> delayTimeoutId s = None \<and>
      (\<forall>c \<in> set past. eventTime c \<le> clock s) \<and>
      (\<forall>t \<in> set (timers s). \<forall>c \<in> set past. isCall c \<longrightarrow> eventTime c + W \<le> setAt t + ms t))"

subsection \<open>Example funnels\<close>

text \<open>
  Three reducers: the one of the test suite's debounce wrapper, \<^verbatim>\<open>(_, ...args) => args\<close>, which
  keeps the last call's arguments; one that keeps every call's arguments in order; and
  \<^verbatim>\<open>(_, value?: string) => value\<close>, whose result is \<^verbatim>\<open>undefined\<close> when \<^verbatim>\<open>call()\<close> is given no
  argument.
\<close>

definition keepLast :: "'a option \<Rightarrow> 'a \<Rightarrow> 'a option" where
  "keepLast acc args = Some args"

definition collect :: "'a list option \<Rightarrow> 'a \<Rightarrow> 'a list option" where
  "collect acc args = Some (case acc of None \<Rightarrow> [args] | Some xs \<Rightarrow> xs @ [args])"

definition optionalValue :: "string option \<Rightarrow> string option \<Rightarrow> string option" where
  "optionalValue acc value = value"

text \<open>
  Three executors: one that returns, one that throws, and one that on its first invocation
  calls \<^verbatim>\<open>call(args)\<close> on its own funnel before it returns (an execution nested in that call
  returns at once).
\<close>

definition quietly :: "'d executor" where
  "quietly param s = (Returned, s)"

definition throwing :: "'d executor" where
  "throwing param s = (Threw, s)"

definition reentering ::
  "timing_policy \<Rightarrow> ('d option \<Rightarrow> 'a \<Rightarrow> 'd option) \<Rightarrow> 'a \<Rightarrow> 'd executor" where
  "reentering p reduceArgs args param s =
     (if length (executed s) = 1 then call p reduceArgs quietly args s else (Returned, s))"

text \<open>
  Policies: the test suite's debouncer (\<^verbatim>\<open>{burstCoolDownMs: 32}\<close>) and its leading-only
  variant, a debouncer with a burst cap, a debouncer with a delay, a throttle that fires on both
  edges, a trailing funnel whose cool-down and delay are 0 ms, and a policy with a delay and no
  burst.
\<close>

definition debounce32 :: timing_policy where
  "debounce32 = \<lparr>invokedAt = None, burstCoolDownMs = Some 32, maxBurstDurationMs = None,
     delayMs = None\<rparr>"

definition leading32 :: timing_policy where
  "leading32 = \<lparr>invokedAt = Some Start, burstCoolDownMs = Some 32, maxBurstDurationMs = None,
     delayMs = None\<rparr>"

definition capped :: timing_policy where
  "capped = \<lparr>invokedAt = Some End, burstCoolDownMs = Some 32, maxBurstDurationMs = Some 50,
     delayMs = None\<rparr>"

definition debounceDelay :: timing_policy where
  "debounceDelay = \<lparr>invokedAt = None, burstCoolDownMs = Some 10, maxBurstDurationMs = None,
     delayMs = Some 100\<rparr>"

definition throttle100 :: timing_policy where
  "throttle100 = \<lparr>invokedAt = Some Both, burstCoolDownMs = None, maxBurstDurationMs = None,
     delayMs = Some 100\<rparr>"

definition immediate :: timing_policy where
  "immediate = \<lparr>invokedAt = None, burstCoolDownMs = Some 0, maxBurstDurationMs = None,
     delayMs = Some 0\<rparr>"

definition delayOnly :: timing_policy where
  "delayOnly = \<lparr>invokedAt = None, burstCoolDownMs = None, maxBurstDurationMs = None,
     delayMs = Some 100\<rparr>"

text \<open>
  States: \<open>bursting\<close> is \<open>leading32\<close> right after its first call at time 0; \<open>cappedBurst\<close> is
  \<open>capped\<close> 30 ms after its first call at time 0; \<open>delaying\<close> is \<open>debounceDelay\<close> at time 20,
  after a call at 0 whose burst timeout fired at 10.
\<close>

definition bursting :: "string funnel" where
  "bursting = \<lparr>burstTimeoutId = Some 0, delayTimeoutId = None, preparedData = None,
     burstStartTimestamp = Some 0,
     timers = [\<lparr>tid = 0, callback = HandleBurstEnd, setAt = 0, ms = 32\<rparr>],
     nextTimerId = 1, clock = 0,
     executed = [\<lparr>execAt = 0, execParam = ''a'', execPending = None\<rparr>]\<rparr>"

definition cappedBurst :: "string funnel" where
  "cappedBurst = \<lparr>burstTimeoutId = Some 0, delayTimeoutId = None, preparedData = Some ''a'',
     burstStartTimestamp = Some 0,
     timers = [\<lparr>tid = 0, callback = HandleBurstEnd, setAt = 0, ms = 32\<rparr>],
     nextTimerId = 1, clock = 30, executed = []\<rparr>"

definition delaying :: "string funnel" where
  "delaying = \<lparr>burstTimeoutId = None, delayTimeoutId = Some 1, preparedData = None,
     burstStartTimestamp = None,
     timers = [\<lparr>tid = 1, callback = HandleDelayEnd, setAt = 10, ms = 100\<rparr>],
     nextTimerId = 2, clock = 20,
     executed = [\<lparr>execAt = 10, execParam = ''a'', execPending = None\<rparr>]\<rparr>"

section \<open>Basic facts\<close>

lemmas funnel_defs = call_def armBurst_def armDelay_def burstRemainingMs_def invoke_def
  entered_def handleBurstEnd_def handleDelayEnd_def cancel_def flush_def clearTimeout_def
  setTimeout_def isIdle_def invokedAtOrDefault_def

lemmas example_defs = debounce32_def leading32_def capped_def debounceDelay_def throttle100_def
  immediate_def delayOnly_def keepLast_def collect_def optionalValue_def quietly_def
  throwing_def reentering_def bursting_def cappedBurst_def delaying_def

lemmas eval_defs = funnel_defs step_def fire_def runCallback_def init_def Let_def

text \<open>The example states are states the example funnels reach.\<close>

lemma bursting_reached: "run leading32 keepLast quietly [Call 0 ''a''] (init 0) = Some bursting"
  by (simp add: eval_defs example_defs)

lemma cappedBurst_reached:
  "run capped keepLast quietly [Call 0 ''a''] (init 0) = Some (cappedBurst\<lparr>clock := 0\<rparr>)"
  by (simp add: eval_defs example_defs)

lemma delaying_reached:
  "run debounceDelay keepLast quietly [Call 0 ''a'', Fire 10 0] (init 0)
     = Some (delaying\<lparr>clock := 10\<rparr>)"
  by (simp add: eval_defs example_defs)

lemma quietly_nonReentrant: "nonReentrant quietly"
  by (simp add: nonReentrant_def quietly_def)

lemma quietly_neverThrows: "neverThrows quietly"
  by (simp add: neverThrows_def quietly_def)

lemma throwing_nonReentrant: "nonReentrant throwing"
  by (simp add: nonReentrant_def throwing_def)

subsection \<open>What the parts leave alone\<close>

lemma armBurst_frame [simp]:
  "preparedData (armBurst p coolDown s) = preparedData s"
  "executed (armBurst p coolDown s) = executed s"
  "delayTimeoutId (armBurst p coolDown s) = delayTimeoutId s"
  "clock (armBurst p coolDown s) = clock s"
  by (simp_all add: armBurst_def setTimeout_def clearTimeout_def Let_def split: option.splits)

lemma armDelay_frame [simp]:
  "preparedData (armDelay p s) = preparedData s"
  "executed (armDelay p s) = executed s"
  "burstTimeoutId (armDelay p s) = burstTimeoutId s"
  "burstStartTimestamp (armDelay p s) = burstStartTimestamp s"
  "clock (armDelay p s) = clock s"
  by (simp_all add: armDelay_def setTimeout_def split: option.splits)

lemma entered_frame [simp]:
  "preparedData (entered d s) = preparedData s"
  "burstTimeoutId (entered d s) = burstTimeoutId s"
  "delayTimeoutId (entered d s) = delayTimeoutId s"
  "burstStartTimestamp (entered d s) = burstStartTimestamp s"
  "timers (entered d s) = timers s"
  "nextTimerId (entered d s) = nextTimerId s"
  "clock (entered d s) = clock s"
  "executed (entered d s) =
     executed s @ [\<lparr>execAt = clock s, execParam = d, execPending = preparedData s\<rparr>]"
  by (simp_all add: entered_def)

text \<open>
  \<^verbatim>\<open>invoke\<close> with an executor that does not call back into the funnel: nothing to do, or the
  executor is entered with the payload cleared and throws, or it returns and the delay is set.
\<close>

lemma invoke_cases:
  assumes "nonReentrant execute"
  obtains (nothing) "preparedData s = None" "invoke p execute s = (Returned, s)"
  | (threw) d where "preparedData s = Some d"
      "invoke p execute s = (Threw, entered d (s\<lparr>preparedData := None\<rparr>))"
  | (ran) d where "preparedData s = Some d"
      "invoke p execute s = (Returned, armDelay p (entered d (s\<lparr>preparedData := None\<rparr>)))"
proof (cases "preparedData s")
  case None
  then have "invoke p execute s = (Returned, s)" by (simp add: invoke_def)
  with None show thesis by (rule nothing)
next
  case (Some d)
  let ?s1 = "entered d (s\<lparr>preparedData := None\<rparr>)"
  obtain out s2 where e: "execute d ?s1 = (out, s2)" by (cases "execute d ?s1")
  with assms have s2: "s2 = ?s1" by (metis nonReentrant_def snd_conv)
  show thesis
  proof (cases out)
    case Returned
    with e s2 Some have "invoke p execute s = (Returned, armDelay p ?s1)"
      by (simp add: invoke_def)
    with Some show thesis by (rule ran)
  next
    case Threw
    with e s2 Some have "invoke p execute s = (Threw, ?s1)"
      by (simp add: invoke_def)
    with Some show thesis by (rule threw)
  qed
qed

lemma invoke_quietly:
  assumes "nonReentrant execute" and "neverThrows execute"
  shows "invoke p execute s =
           (Returned, case preparedData s of None \<Rightarrow> s
                      | Some d \<Rightarrow> armDelay p (entered d (s\<lparr>preparedData := None\<rparr>)))"
proof (cases "preparedData s")
  case None
  then show ?thesis by (simp add: invoke_def)
next
  case (Some d)
  let ?s1 = "entered d (s\<lparr>preparedData := None\<rparr>)"
  from assms have "execute d ?s1 = (Returned, ?s1)"
    by (metis neverThrows_def nonReentrant_def prod.collapse)
  with Some show ?thesis by (simp add: invoke_def)
qed

lemma invoke_frame:
  assumes "nonReentrant execute"
  shows "burstTimeoutId (snd (invoke p execute s)) = burstTimeoutId s"
    and "burstStartTimestamp (snd (invoke p execute s)) = burstStartTimestamp s"
    and "clock (snd (invoke p execute s)) = clock s"
    and "preparedData (snd (invoke p execute s)) = None"
  by (cases rule: invoke_cases[OF assms, of s p]; simp)+

subsection \<open>Handles and pending timeouts describe each other\<close>

text \<open>
  \<open>owned\<close> holds initially and every function of the funnel keeps it, as does the host when it
  fires a timeout, as long as the executor does not call back into the funnel; so it holds in
  every state the event loop reaches with such an executor.
\<close>

lemma owned_init: "owned (init t0)"
  by (simp add: owned_def init_def)

lemma owned_clock: "owned (s\<lparr>clock := t\<rparr>) = owned s"
  by (simp add: owned_def)

lemma owned_prepared: "owned (s\<lparr>preparedData := x\<rparr>) = owned s"
  by (simp add: owned_def)

lemma owned_executed: "owned (s\<lparr>executed := x\<rparr>) = owned s"
  by (simp add: owned_def)

lemma owned_start: "owned (s\<lparr>burstStartTimestamp := x\<rparr>) = owned s"
  by (simp add: owned_def)

lemma tid_inj:
  "distinct (map tid ts) \<Longrightarrow> t \<in> set ts \<Longrightarrow> u \<in> set ts \<Longrightarrow> tid t = tid u \<Longrightarrow> t = u"
  by (meson distinct_map inj_onD)

lemma owned_clear_burst:
  assumes "owned s"
  shows "owned ((clearTimeout (burstTimeoutId s) s)\<lparr>burstTimeoutId := None\<rparr>)"
proof (cases "burstTimeoutId s")
  case None
  with assms show ?thesis by (simp add: clearTimeout_def owned_def)
next
  case (Some i)
  from assms have d: "distinct (map tid (timers s))" by (simp add: owned_def)
  from assms Some obtain b where b: "b \<in> set (timers s)" "tid b = i" "callback b = HandleBurstEnd"
    by (auto simp: owned_def)
  have keep: "tid t \<noteq> i" if "t \<in> set (timers s)" "callback t = HandleDelayEnd" for t
    using tid_inj[OF d that(1) b(1)] b that by auto
  have gone: "callback t \<noteq> HandleBurstEnd" if "t \<in> set (timers s)" "tid t \<noteq> i" for t
    using assms Some that by (auto simp: owned_def)
  show ?thesis
    unfolding owned_def clearTimeout_def using assms Some keep gone
    by (simp add: distinct_map_filter owned_def) blast
qed

lemma owned_clear_delay:
  assumes "owned s"
  shows "owned ((clearTimeout (delayTimeoutId s) s)\<lparr>delayTimeoutId := None\<rparr>)"
proof (cases "delayTimeoutId s")
  case None
  with assms show ?thesis by (simp add: clearTimeout_def owned_def)
next
  case (Some i)
  from assms have d: "distinct (map tid (timers s))" by (simp add: owned_def)
  from assms Some obtain b where b: "b \<in> set (timers s)" "tid b = i" "callback b = HandleDelayEnd"
    by (auto simp: owned_def)
  have keep: "tid t \<noteq> i" if "t \<in> set (timers s)" "callback t = HandleBurstEnd" for t
    using tid_inj[OF d that(1) b(1)] b that by auto
  have gone: "callback t \<noteq> HandleDelayEnd" if "t \<in> set (timers s)" "tid t \<noteq> i" for t
    using assms Some that by (auto simp: owned_def)
  show ?thesis
    unfolding owned_def clearTimeout_def using assms Some keep gone
    by (simp add: distinct_map_filter owned_def) blast
qed

lemma owned_set_burst:
  assumes "owned s" and "burstTimeoutId s = None"
  shows "owned ((snd (setTimeout HandleBurstEnd d s))\<lparr>burstTimeoutId := Some (nextTimerId s)\<rparr>)"
proof -
  have fresh: "tid t \<noteq> nextTimerId s" "tid t < Suc (nextTimerId s)" "callback t \<noteq> HandleBurstEnd"
    if "t \<in> set (timers s)" for t
    using assms that by (auto simp: owned_def)
  show ?thesis
    unfolding owned_def setTimeout_def using assms fresh
    by (auto simp: owned_def)
qed

lemma owned_set_delay:
  assumes "owned s" and "delayTimeoutId s = None"
  shows "owned ((snd (setTimeout HandleDelayEnd d s))\<lparr>delayTimeoutId := Some (nextTimerId s)\<rparr>)"
proof -
  have fresh: "tid t \<noteq> nextTimerId s" "tid t < Suc (nextTimerId s)" "callback t \<noteq> HandleDelayEnd"
    if "t \<in> set (timers s)" for t
    using assms that by (auto simp: owned_def)
  show ?thesis
    unfolding owned_def setTimeout_def using assms fresh
    by (auto simp: owned_def)
qed

lemma owned_entered: "owned (entered d s) = owned s"
  by (simp add: entered_def owned_executed)

lemma owned_armDelay:
  assumes "owned s" and "delayTimeoutId s = None"
  shows "owned (armDelay p s)"
proof (cases "delayMs p")
  case None
  with assms show ?thesis by (simp add: armDelay_def)
next
  case (Some d)
  have "armDelay p s = (snd (setTimeout HandleDelayEnd d s))\<lparr>delayTimeoutId := Some (nextTimerId s)\<rparr>"
    using Some by (simp add: armDelay_def setTimeout_def)
  then show ?thesis using owned_set_delay[OF assms] by simp
qed

lemma owned_invoke:
  assumes "nonReentrant execute" and "owned s" and "delayTimeoutId s = None"
  shows "owned (snd (invoke p execute s))"
  using assms(2,3)
  by (cases rule: invoke_cases[OF assms(1), of s p])
     (simp_all add: owned_entered owned_prepared owned_armDelay)

lemma owned_handleBurstEnd:
  "nonReentrant execute \<Longrightarrow> owned s \<Longrightarrow> owned (snd (handleBurstEnd p execute s))"
  using owned_clear_burst[of s]
  by (simp add: handleBurstEnd_def Let_def owned_invoke owned_start)

lemma owned_handleDelayEnd:
  "nonReentrant execute \<Longrightarrow> owned s \<Longrightarrow> owned (snd (handleDelayEnd p execute s))"
  using owned_clear_delay[of s]
  by (simp add: handleDelayEnd_def Let_def owned_invoke)

lemma flush_snd:
  "snd (flush p execute s) =
     (if fst (handleBurstEnd p execute s) = Threw then snd (handleBurstEnd p execute s)
      else snd (handleDelayEnd p execute (snd (handleBurstEnd p execute s))))"
  by (cases "handleBurstEnd p execute s"; cases "fst (handleBurstEnd p execute s)")
     (simp_all add: flush_def)

lemma owned_flush:
  "nonReentrant execute \<Longrightarrow> owned s \<Longrightarrow> owned (snd (flush p execute s))"
  by (simp add: flush_snd owned_handleBurstEnd owned_handleDelayEnd)

lemma owned_cancel: "owned s \<Longrightarrow> owned (cancel s)"
proof -
  assume o: "owned s"
  let ?s1 = "(clearTimeout (burstTimeoutId s) s)\<lparr>burstTimeoutId := None\<rparr>"
  have "owned ?s1" using o by (rule owned_clear_burst)
  then have "owned ((clearTimeout (delayTimeoutId ?s1) ?s1)\<lparr>delayTimeoutId := None\<rparr>)"
    by (rule owned_clear_delay)
  then show ?thesis
    by (simp add: cancel_def Let_def owned_def clearTimeout_def split: option.splits)
qed

lemma owned_armBurst: "owned s \<Longrightarrow> owned (armBurst p coolDown s)"
proof -
  assume o: "owned s"
  let ?s1 = "(clearTimeout (burstTimeoutId s) s)\<lparr>burstTimeoutId := None\<rparr>"
  let ?start = "case burstStartTimestamp s of None \<Rightarrow> clock s | Some b \<Rightarrow> b"
  let ?s2 = "?s1\<lparr>burstStartTimestamp := Some ?start\<rparr>"
  have o2: "owned ?s2" using owned_clear_burst[OF o] by (simp add: owned_start)
  have b2: "burstTimeoutId ?s2 = None" by simp
  have "armBurst p coolDown s =
          (snd (setTimeout HandleBurstEnd (burstRemainingMs p coolDown (clock s) ?start) ?s2))
            \<lparr>burstTimeoutId := Some (nextTimerId ?s2)\<rparr>"
    by (simp add: armBurst_def Let_def setTimeout_def clearTimeout_def split: option.splits)
  then show ?thesis using owned_set_burst[OF o2 b2] by simp
qed

lemma call_snd:
  "snd (call p reduceArgs execute args s) =
     (let wasIdle = isIdle s;
          s1 = (if invokedAtOrDefault p \<noteq> Start \<or> wasIdle
                then s\<lparr>preparedData := reduceArgs (preparedData s) args\<rparr> else s)
      in if invokedAtOrDefault p \<noteq> End \<and> wasIdle \<and> fst (invoke p execute s1) = Threw
         then snd (invoke p execute s1)
         else (let s2 = (if invokedAtOrDefault p \<noteq> End \<and> wasIdle
                         then snd (invoke p execute s1) else s1)
               in case burstCoolDownMs p of
                    None \<Rightarrow> s2
                  | Some coolDown \<Rightarrow>
                      if burstTimeoutId s2 = None \<and> \<not> wasIdle then s2
                      else armBurst p coolDown s2))"
proof -
  let ?s1 = "if invokedAtOrDefault p \<noteq> Start \<or> isIdle s
             then s\<lparr>preparedData := reduceArgs (preparedData s) args\<rparr> else s"
  obtain out s2 where i: "invoke p execute ?s1 = (out, s2)" by (cases "invoke p execute ?s1")
  then show ?thesis
    by (cases out) (auto simp: call_def isIdle_def Let_def split: option.splits)
qed

lemma owned_call:
  "nonReentrant execute \<Longrightarrow> owned s \<Longrightarrow> owned (snd (call p reduceArgs execute args s))"
  by (simp add: call_snd isIdle_def Let_def owned_armBurst owned_invoke owned_prepared
           split: option.splits)

lemma find_timer: "find (\<lambda>t. tid t = i) ts = Some t \<Longrightarrow> t \<in> set ts \<and> tid t = i"
  by (auto simp: find_Some_iff in_set_conv_nth)

lemma fired_burst:
  "burstTimeoutId s = Some i \<Longrightarrow>
   handleBurstEnd p execute (s\<lparr>timers := filter (\<lambda>u. tid u \<noteq> i) (timers s)\<rparr>)
     = handleBurstEnd p execute s"
  by (simp add: handleBurstEnd_def clearTimeout_def Let_def)

lemma fired_delay:
  "delayTimeoutId s = Some i \<Longrightarrow>
   handleDelayEnd p execute (s\<lparr>timers := filter (\<lambda>u. tid u \<noteq> i) (timers s)\<rparr>)
     = handleDelayEnd p execute s"
  by (simp add: handleDelayEnd_def clearTimeout_def Let_def)

lemma fire_cases:
  assumes "owned s" and "fire p execute i s = Some s'"
  obtains t where "t \<in> set (timers s)" "tid t = i" "setAt t + ms t \<le> clock s"
      "callback t = HandleBurstEnd" "burstTimeoutId s = Some i"
      "s' = snd (handleBurstEnd p execute s)"
  | t where "t \<in> set (timers s)" "tid t = i" "setAt t + ms t \<le> clock s"
      "callback t = HandleDelayEnd" "delayTimeoutId s = Some i"
      "s' = snd (handleDelayEnd p execute s)"
proof -
  from assms(2) obtain t where f: "find (\<lambda>t. tid t = i) (timers s) = Some t"
    and due: "setAt t + ms t \<le> clock s"
    and s': "s' = snd (runCallback p execute (callback t)
                        (s\<lparr>timers := filter (\<lambda>u. tid u \<noteq> i) (timers s)\<rparr>))"
    by (auto simp: fire_def split: option.splits if_splits)
  from find_timer[OF f] have t: "t \<in> set (timers s)" "tid t = i" by simp_all
  show thesis
  proof (cases "callback t")
    case HandleBurstEnd
    with assms(1) t have b: "burstTimeoutId s = Some i" by (auto simp: owned_def)
    with s' HandleBurstEnd have "s' = snd (handleBurstEnd p execute s)"
      by (simp add: runCallback_def fired_burst)
    with that(1) t due HandleBurstEnd b show thesis by blast
  next
    case HandleDelayEnd
    with assms(1) t have b: "delayTimeoutId s = Some i" by (auto simp: owned_def)
    with s' HandleDelayEnd have "s' = snd (handleDelayEnd p execute s)"
      by (simp add: runCallback_def fired_delay)
    with that(2) t due HandleDelayEnd b show thesis by blast
  qed
qed

lemma owned_fire:
  assumes "nonReentrant execute" and "owned s" and "fire p execute i s = Some s'"
  shows "owned s'"
proof (rule fire_cases[OF assms(2,3)])
  fix t assume "s' = snd (handleBurstEnd p execute s)"
  with assms(1,2) show "owned s'" by (simp add: owned_handleBurstEnd)
next
  fix t assume "s' = snd (handleDelayEnd p execute s)"
  with assms(1,2) show "owned s'" by (simp add: owned_handleDelayEnd)
qed

lemma owned_step:
  "nonReentrant execute \<Longrightarrow> owned s \<Longrightarrow> step p reduceArgs execute e s = Some s' \<Longrightarrow> owned s'"
  by (cases e)
     (auto simp: step_def Let_def owned_clock owned_call owned_flush owned_cancel
           dest: owned_fire[rotated 2] split: if_splits)

lemma owned_run:
  "nonReentrant execute \<Longrightarrow> owned s \<Longrightarrow> run p reduceArgs execute evs s = Some s' \<Longrightarrow> owned s'"
  by (induction evs arbitrary: s) (auto split: option.splits dest: owned_step)

lemma call_fst:
  "fst (call p reduceArgs execute args s) =
     (if invokedAtOrDefault p \<noteq> End \<and> isIdle s
      then fst (invoke p execute
                 (if invokedAtOrDefault p \<noteq> Start \<or> isIdle s
                  then s\<lparr>preparedData := reduceArgs (preparedData s) args\<rparr> else s))
      else Returned)"
proof -
  let ?s1 = "if invokedAtOrDefault p \<noteq> Start \<or> isIdle s
             then s\<lparr>preparedData := reduceArgs (preparedData s) args\<rparr> else s"
  obtain out s2 where i: "invoke p execute ?s1 = (out, s2)" by (cases "invoke p execute ?s1")
  then show ?thesis
    by (cases out) (auto simp: call_def isIdle_def Let_def split: option.splits)
qed

lemma armDelay_next:
  "nextTimerId (armDelay p s) =
     (case delayMs p of None \<Rightarrow> nextTimerId s | Some d \<Rightarrow> Suc (nextTimerId s))"
  by (simp add: armDelay_def setTimeout_def split: option.splits)

lemma invoke_next:
  assumes "nonReentrant execute"
  shows "nextTimerId s \<le> nextTimerId (snd (invoke p execute s))"
  by (cases rule: invoke_cases[OF assms, of s p])
     (simp_all add: armDelay_next split: option.splits)

subsection \<open>Effects on the payload and on the executions\<close>

lemma call_no_invoke:
  assumes "invokedAtOrDefault p = End \<or> \<not> isIdle s"
  shows "call p reduceArgs execute args s =
           (Returned,
            let s1 = (if invokedAtOrDefault p \<noteq> Start \<or> isIdle s
                      then s\<lparr>preparedData := reduceArgs (preparedData s) args\<rparr> else s)
            in case burstCoolDownMs p of
                 None \<Rightarrow> s1
               | Some coolDown \<Rightarrow>
                   if burstTimeoutId s1 = None \<and> \<not> isIdle s then s1
                   else armBurst p coolDown s1)"
  using assms by (auto simp: call_def isIdle_def Let_def split: option.splits)

lemma call_no_burst_end:
  assumes "invokedAtOrDefault p = End" and "burstCoolDownMs p = None"
  shows "call p reduceArgs execute args s
           = (Returned, s\<lparr>preparedData := reduceArgs (preparedData s) args\<rparr>)"
  using assms by (simp add: call_no_invoke Let_def)


lemma invoke_effect:
  assumes "nonReentrant execute"
  shows "(preparedData s = None \<and> executed (snd (invoke p execute s)) = executed s \<and>
          preparedData (snd (invoke p execute s)) = None) \<or>
         (\<exists>d. preparedData s = Some d \<and> preparedData (snd (invoke p execute s)) = None \<and>
              executed (snd (invoke p execute s)) =
                executed s @ [\<lparr>execAt = clock s, execParam = d, execPending = None\<rparr>])"
  by (cases rule: invoke_cases[OF assms, of s p]) simp_all



lemma call_end_effect:
  assumes "invokedAtOrDefault p = End"
  shows "executed (snd (call p reduceArgs execute args s)) = executed s"
    and "preparedData (snd (call p reduceArgs execute args s)) = reduceArgs (preparedData s) args"
    and "fst (call p reduceArgs execute args s) = Returned"
  using assms by (simp_all add: call_no_invoke Let_def split: option.splits)



text \<open>
  \<^verbatim>\<open>flush\<close> with an executor that does not call back into the funnel: a pending payload is
  handed over exactly once. The funnel is idle afterwards unless a delay timeout and a payload
  were pending, \<^verbatim>\<open>delayMs\<close> is defined and the executor returns.
\<close>

lemma clearTimeout_frame [simp]:
  "preparedData (clearTimeout i s) = preparedData s"
  "executed (clearTimeout i s) = executed s"
  "burstTimeoutId (clearTimeout i s) = burstTimeoutId s"
  "delayTimeoutId (clearTimeout i s) = delayTimeoutId s"
  "burstStartTimestamp (clearTimeout i s) = burstStartTimestamp s"
  "nextTimerId (clearTimeout i s) = nextTimerId s"
  "clock (clearTimeout i s) = clock s"
  by (simp_all add: clearTimeout_def split: option.splits)

lemma invoke_None: "preparedData s = None \<Longrightarrow> invoke p execute s = (Returned, s)"
  by (simp add: invoke_def)

lemma armDelay_delay:
  "delayTimeoutId (armDelay p s) = (case delayMs p of None \<Rightarrow> delayTimeoutId s
                                    | Some d \<Rightarrow> Some (nextTimerId s))"
  by (simp add: armDelay_def setTimeout_def split: option.splits)

lemma flush_cases [consumes 1, case_names deferred nothing threw ran]:
  assumes "nonReentrant execute"
  obtains (deferred) "delayTimeoutId s \<noteq> None"
      "flush p execute s =
         invoke p execute
           ((clearTimeout (delayTimeoutId s)
               ((clearTimeout (burstTimeoutId s) s)
                  \<lparr>burstTimeoutId := None, burstStartTimestamp := None\<rparr>))
              \<lparr>delayTimeoutId := None\<rparr>)"
  | (nothing) "delayTimeoutId s = None" "preparedData s = None"
      "fst (flush p execute s) = Returned"
      "executed (snd (flush p execute s)) = executed s"
      "preparedData (snd (flush p execute s)) = None"
      "burstTimeoutId (snd (flush p execute s)) = None"
      "delayTimeoutId (snd (flush p execute s)) = None"
  | (threw) d where "delayTimeoutId s = None" "preparedData s = Some d"
      "fst (flush p execute s) = Threw"
      "executed (snd (flush p execute s)) =
         executed s @ [\<lparr>execAt = clock s, execParam = d, execPending = None\<rparr>]"
      "preparedData (snd (flush p execute s)) = None"
      "burstTimeoutId (snd (flush p execute s)) = None"
      "delayTimeoutId (snd (flush p execute s)) = None"
  | (ran) d where "delayTimeoutId s = None" "preparedData s = Some d"
      "fst (flush p execute s) = Returned"
      "executed (snd (flush p execute s)) =
         executed s @ [\<lparr>execAt = clock s, execParam = d, execPending = None\<rparr>]"
      "preparedData (snd (flush p execute s)) = None"
      "burstTimeoutId (snd (flush p execute s)) = None"
      "delayTimeoutId (snd (flush p execute s)) = None"
proof (cases "delayTimeoutId s")
  case (Some i)
  then have "flush p execute s =
         invoke p execute
           ((clearTimeout (delayTimeoutId s)
               ((clearTimeout (burstTimeoutId s) s)
                  \<lparr>burstTimeoutId := None, burstStartTimestamp := None\<rparr>))
              \<lparr>delayTimeoutId := None\<rparr>)"
    by (simp add: flush_def handleBurstEnd_def handleDelayEnd_def Let_def)
  with Some deferred show thesis by simp
next
  case None
  let ?b = "(clearTimeout (burstTimeoutId s) s)\<lparr>burstTimeoutId := None, burstStartTimestamp := None\<rparr>"
  have hb: "handleBurstEnd p execute s = invoke p execute ?b"
    using None by (simp add: handleBurstEnd_def Let_def)
  have hd: "handleDelayEnd p execute s1 =
              (Returned, (clearTimeout (delayTimeoutId s1) s1)\<lparr>delayTimeoutId := None\<rparr>)"
    if "burstTimeoutId s1 = None" "preparedData s1 = None" for s1
    using that by (simp add: handleDelayEnd_def Let_def invoke_None)
  show thesis
  proof (rule invoke_cases[OF assms, of ?b p])
    assume n: "preparedData ?b = None" "invoke p execute ?b = (Returned, ?b)"
    from n(2) hb have b: "handleBurstEnd p execute s = (Returned, ?b)" by simp
    have "handleDelayEnd p execute ?b =
            (Returned, (clearTimeout (delayTimeoutId ?b) ?b)\<lparr>delayTimeoutId := None\<rparr>)"
      using n(1) by (intro hd) simp_all
    then have fl: "flush p execute s =
                 (Returned, (clearTimeout (delayTimeoutId ?b) ?b)\<lparr>delayTimeoutId := None\<rparr>)"
      unfolding flush_def b by simp
    show thesis by (rule nothing) (use None n(1) fl in simp_all)
  next
    fix d
    assume t: "preparedData ?b = Some d"
      "invoke p execute ?b = (Threw, entered d (?b\<lparr>preparedData := None\<rparr>))"
    from t(2) hb have b: "handleBurstEnd p execute s =
        (Threw, entered d (?b\<lparr>preparedData := None\<rparr>))" by simp
    have fl: "flush p execute s = (Threw, entered d (?b\<lparr>preparedData := None\<rparr>))"
      unfolding flush_def b by simp
    show thesis by (rule threw[of d]) (use None t(1) fl in simp_all)
  next
    fix d
    assume r: "preparedData ?b = Some d"
      "invoke p execute ?b = (Returned, armDelay p (entered d (?b\<lparr>preparedData := None\<rparr>)))"
    let ?x = "armDelay p (entered d (?b\<lparr>preparedData := None\<rparr>))"
    from r(2) hb have b: "handleBurstEnd p execute s = (Returned, ?x)" by simp
    have "handleDelayEnd p execute ?x =
            (Returned, (clearTimeout (delayTimeoutId ?x) ?x)\<lparr>delayTimeoutId := None\<rparr>)"
      by (intro hd) simp_all
    then have fl: "flush p execute s =
                 (Returned, (clearTimeout (delayTimeoutId ?x) ?x)\<lparr>delayTimeoutId := None\<rparr>)"
      unfolding flush_def b by simp
    show thesis by (rule ran[of d]) (use None r(1) fl in simp_all)
  qed
qed

lemma flush_effect:
  assumes "nonReentrant execute"
  shows "executed (snd (flush p execute s)) =
           executed s @ (case preparedData s of None \<Rightarrow> []
                         | Some d \<Rightarrow> [\<lparr>execAt = clock s, execParam = d, execPending = None\<rparr>])"
    and "preparedData (snd (flush p execute s)) = None"
    and "burstTimeoutId (snd (flush p execute s)) = None"
proof -
  let ?bd = "(clearTimeout (delayTimeoutId s)
               ((clearTimeout (burstTimeoutId s) s)
                  \<lparr>burstTimeoutId := None, burstStartTimestamp := None\<rparr>))
              \<lparr>delayTimeoutId := None\<rparr>"
  have "executed (snd (flush p execute s)) =
           executed s @ (case preparedData s of None \<Rightarrow> []
                         | Some d \<Rightarrow> [\<lparr>execAt = clock s, execParam = d, execPending = None\<rparr>]) \<and>
        preparedData (snd (flush p execute s)) = None \<and>
        burstTimeoutId (snd (flush p execute s)) = None"
  using assms
  proof (cases rule: flush_cases[where s = s and p = p])
    case deferred
    then show ?thesis
      by (cases rule: invoke_cases[OF assms, of ?bd p]) simp_all
  qed simp_all
  then show "executed (snd (flush p execute s)) =
           executed s @ (case preparedData s of None \<Rightarrow> []
                         | Some d \<Rightarrow> [\<lparr>execAt = clock s, execParam = d, execPending = None\<rparr>])"
    and "preparedData (snd (flush p execute s)) = None"
    and "burstTimeoutId (snd (flush p execute s)) = None"
    by simp_all
qed

lemma flush_idle:
  assumes "nonReentrant execute"
    and "delayTimeoutId s = None \<or> preparedData s = None \<or> delayMs p = None"
  shows "isIdle (snd (flush p execute s))"
proof -
  let ?bd = "(clearTimeout (delayTimeoutId s)
               ((clearTimeout (burstTimeoutId s) s)
                  \<lparr>burstTimeoutId := None, burstStartTimestamp := None\<rparr>))
              \<lparr>delayTimeoutId := None\<rparr>"
  show ?thesis
  using assms(1)
  proof (cases rule: flush_cases[where s = s and p = p])
    case deferred
    with assms(2) show ?thesis
      by (cases rule: invoke_cases[OF assms(1), of ?bd p])
         (auto simp: isIdle_def armDelay_delay)
  qed (simp_all add: isIdle_def)
qed

lemma flush_not_idle:
  assumes "nonReentrant execute" and "neverThrows execute"
    and "delayTimeoutId s \<noteq> None" and "preparedData s \<noteq> None" and "delayMs p \<noteq> None"
  shows "\<not> isIdle (snd (flush p execute s))"
proof -
  let ?bd = "(clearTimeout (delayTimeoutId s)
               ((clearTimeout (burstTimeoutId s) s)
                  \<lparr>burstTimeoutId := None, burstStartTimestamp := None\<rparr>))
              \<lparr>delayTimeoutId := None\<rparr>"
  show ?thesis
  using assms(1)
  proof (cases rule: flush_cases[where s = s and p = p])
    case deferred
    with assms(3-5) show ?thesis
      by (auto simp: invoke_quietly[OF assms(1,2)] isIdle_def armDelay_delay)
  qed (use assms(3) in simp_all)
qed

subsection \<open>The delay between executions, without \<^verbatim>\<open>flush\<close> and \<^verbatim>\<open>cancel\<close>\<close>

text \<open>Here the executor returns and does not call back into the funnel.\<close>

lemma minGap_snoc:
  "minGap d (ts @ [t]) = (minGap d ts \<and> (ts = [] \<or> d \<le> t - last ts))"
  by (induction d ts rule: minGap.induct) auto

lemma spacing_init: "spacing d (init t0)"
  by (simp add: spacing_def owned_def delayHolds_def execTimes_def init_def)

lemma spacing_clock: "spacing d s \<Longrightarrow> clock s \<le> t \<Longrightarrow> spacing d (s\<lparr>clock := t\<rparr>)"
  by (auto simp: spacing_def owned_clock delayHolds_def execTimes_def)

lemma spacing_prepared: "spacing d (s\<lparr>preparedData := x\<rparr>) = spacing d s"
  by (simp add: spacing_def owned_prepared delayHolds_def execTimes_def)

lemma spacing_invoke:
  assumes "nonReentrant execute" and "neverThrows execute"
    and "spacing d s" and "delayTimeoutId s = None" and "delayMs p = Some d"
  shows "spacing d (snd (invoke p execute s))"
proof (cases "preparedData s")
  case None
  with assms(3) show ?thesis by (simp add: invoke_None)
next
  case (Some param)
  let ?s' = "armDelay p (entered param (s\<lparr>preparedData := None\<rparr>))"
  have i: "snd (invoke p execute s) = ?s'"
    using Some by (simp add: invoke_quietly[OF assms(1,2)])
  have o: "owned s" using assms(3) by (simp add: spacing_def)
  have nod: "callback t \<noteq> HandleDelayEnd" if "t \<in> set (timers s)" for t
    using o assms(4) that by (auto simp: owned_def)
  have ready: "executed s = [] \<or> execAt (last (executed s)) + d \<le> clock s"
    using assms(3) nod by (auto simp: spacing_def delayHolds_def)
  have "minGap d (execTimes ?s')"
  proof (cases "executed s = []")
    case True
    then show ?thesis by (simp add: execTimes_def)
  next
    case False
    with assms(3) ready show ?thesis
      by (simp add: spacing_def execTimes_def minGap_snoc last_map)
  qed
  moreover have "delayHolds d ?s'"
    using assms(5) by (simp add: delayHolds_def armDelay_def setTimeout_def)
  ultimately show ?thesis
    using owned_invoke[OF assms(1) o assms(4), of p] by (simp add: spacing_def i)
qed

lemma spacing_clear_burst:
  assumes "spacing d s"
  shows "spacing d ((clearTimeout (burstTimeoutId s) s)
                      \<lparr>burstTimeoutId := None, burstStartTimestamp := None\<rparr>)"
proof -
  have o: "owned s" using assms by (simp add: spacing_def)
  have keep: "tid t \<noteq> i" if "t \<in> set (timers s)" "callback t = HandleDelayEnd"
    "burstTimeoutId s = Some i" for t i
  proof -
    from o that(3) obtain b where b: "b \<in> set (timers s)" "tid b = i" "callback b = HandleBurstEnd"
      by (auto simp: owned_def)
    from o have "distinct (map tid (timers s))" by (simp add: owned_def)
    from tid_inj[OF this that(1) b(1)] b that(2) show ?thesis by auto
  qed
  have "delayHolds d ((clearTimeout (burstTimeoutId s) s)
                      \<lparr>burstTimeoutId := None, burstStartTimestamp := None\<rparr>)"
    using assms keep
    by (auto simp: spacing_def delayHolds_def clearTimeout_def split: option.splits)
  then show ?thesis
    using assms owned_clear_burst[OF o]
    by (simp add: spacing_def owned_start execTimes_def)
qed

lemma spacing_handleBurstEnd:
  assumes "nonReentrant execute" and "neverThrows execute"
    and "spacing d s" and "delayMs p = Some d"
  shows "spacing d (snd (handleBurstEnd p execute s))"
  using spacing_clear_burst[OF assms(3)] assms(4)
  by (simp add: handleBurstEnd_def Let_def spacing_invoke[OF assms(1,2)])

lemma spacing_handleDelayEnd:
  assumes "nonReentrant execute" and "neverThrows execute"
    and "spacing d s" and "delayMs p = Some d"
    and due: "\<forall>t \<in> set (timers s). callback t = HandleDelayEnd \<longrightarrow> setAt t + ms t \<le> clock s"
  shows "spacing d (snd (handleDelayEnd p execute s))"
proof -
  let ?s1 = "(clearTimeout (delayTimeoutId s) s)\<lparr>delayTimeoutId := None\<rparr>"
  have o: "owned s" using assms(3) by (simp add: spacing_def)
  have ready: "executed s = [] \<or> execAt (last (executed s)) + d \<le> clock s"
    using assms(3) due by (fastforce simp: spacing_def delayHolds_def)
  then have "delayHolds d ?s1"
    by (auto simp: delayHolds_def)
  then have "spacing d ?s1"
    using assms(3) owned_clear_delay[OF o]
    by (simp add: spacing_def execTimes_def)
  then show ?thesis
    using assms(4) by (simp add: handleDelayEnd_def Let_def spacing_invoke[OF assms(1,2)])
qed

lemma spacing_armBurst:
  assumes "spacing d s"
  shows "spacing d (armBurst p coolDown s)"
proof -
  let ?s1 = "(clearTimeout (burstTimeoutId s) s)\<lparr>burstTimeoutId := None, burstStartTimestamp := None\<rparr>"
  have "delayHolds d ?s1" using spacing_clear_burst[OF assms] by (simp add: spacing_def)
  then have "delayHolds d (armBurst p coolDown s)"
    by (auto simp: delayHolds_def armBurst_def setTimeout_def clearTimeout_def Let_def
             split: option.splits)
  moreover have "execTimes (armBurst p coolDown s) = execTimes s"
    by (simp add: execTimes_def)
  ultimately show ?thesis
    using assms owned_armBurst[of s p coolDown] by (simp add: spacing_def)
qed

lemma spacing_call:
  assumes "nonReentrant execute" and "neverThrows execute"
    and "spacing d s" and "delayMs p = Some d"
  shows "spacing d (snd (call p reduceArgs execute args s))"
proof -
  have r: "fst (invoke p execute s1) = Returned" for s1
    by (simp add: invoke_quietly[OF assms(1,2)])
  show ?thesis
    using assms(3,4)
    by (simp add: call_snd r isIdle_def Let_def spacing_armBurst spacing_prepared
          spacing_invoke[OF assms(1,2)] split: option.splits)
qed

lemma spacing_fire:
  assumes "nonReentrant execute" and "neverThrows execute"
    and "spacing d s" and "delayMs p = Some d" and "fire p execute i s = Some s'"
  shows "spacing d s'"
proof -
  have o: "owned s" using assms(3) by (simp add: spacing_def)
  show ?thesis
  proof (rule fire_cases[OF o assms(5)])
    fix t assume "s' = snd (handleBurstEnd p execute s)"
    with assms show ?thesis by (simp add: spacing_handleBurstEnd)
  next
    fix t
    assume t: "t \<in> set (timers s)" "tid t = i" "setAt t + ms t \<le> clock s"
      "delayTimeoutId s = Some i" and s': "s' = snd (handleDelayEnd p execute s)"
    have "\<forall>u \<in> set (timers s). callback u = HandleDelayEnd \<longrightarrow> setAt u + ms u \<le> clock s"
    proof (intro ballI impI)
      fix u assume u: "u \<in> set (timers s)" "callback u = HandleDelayEnd"
      with o t(4) have "tid u = tid t" using t(2) by (auto simp: owned_def)
      moreover from o have "distinct (map tid (timers s))" by (simp add: owned_def)
      ultimately have "u = t" using tid_inj u(1) t(1) by blast
      with t(3) show "setAt u + ms u \<le> clock s" by simp
    qed
    with assms s' show ?thesis by (simp add: spacing_handleDelayEnd)
  qed
qed

lemma spacing_step:
  assumes "nonReentrant execute" and "neverThrows execute"
    and "spacing d s" and "delayMs p = Some d" and "isCall e \<or> isFire e"
    and "step p reduceArgs execute e s = Some s'"
  shows "spacing d s'"
proof (cases e)
  case (Call t a)
  with assms(6) have le: "clock s \<le> t"
    and s': "s' = snd (call p reduceArgs execute a (s\<lparr>clock := t\<rparr>))"
    by (auto simp: step_def Let_def split: if_splits)
  from spacing_call[OF assms(1,2) spacing_clock[OF assms(3) le] assms(4)] s' show ?thesis by simp
next
  case (Fire t i)
  with assms(6) have le: "clock s \<le> t" and f: "fire p execute i (s\<lparr>clock := t\<rparr>) = Some s'"
    by (auto simp: step_def Let_def split: if_splits)
  from spacing_fire[OF assms(1,2) spacing_clock[OF assms(3) le] assms(4) f] show ?thesis .
qed (use assms(5) in auto)

subsection \<open>The cool-down of a trailing funnel without a delay\<close>







section \<open>The claims\<close>

subsection \<open>C1: a trailing funnel waits for the cool-down and delivers the fold\<close>




subsection \<open>C2: when a call's arguments are folded into the payload\<close>

text \<open>
  Claim C2. A call folds its arguments into the pending payload by \<^verbatim>\<open>reduceArgs\<close> exactly when
  \<^verbatim>\<open>invokedAt\<close> is not \<^verbatim>\<open>"start"\<close> or the funnel was idle when the call began. Where the call is
  no start edge, the reducer's result, whatever it is, is the pending payload after the call and
  nothing is executed. Where it is a start edge, the result is consumed within the call: an
  \<^verbatim>\<open>undefined\<close> result is the empty payload and nothing is executed; any other result is handed
  to \<^verbatim>\<open>execute\<close> (and with an executor that does not call back into the funnel the payload is
  empty afterwards and that execution is the only one). When \<^verbatim>\<open>invokedAt\<close> is \<^verbatim>\<open>"start"\<close> and a
  timer is live, the call leaves the pending payload as it was and executes nothing.
\<close>

theorem call_folds_args:
  "(invokedAtOrDefault p \<noteq> Start \<or> isIdle s \<longrightarrow>
      (if invokedAtOrDefault p \<noteq> End \<and> isIdle s
       then (case reduceArgs (preparedData s) args of
               None \<Rightarrow>
                 preparedData (snd (call p reduceArgs execute args s)) = None \<and>
                 executed (snd (call p reduceArgs execute args s)) = executed s
             | Some d \<Rightarrow>
                 nonReentrant execute \<longrightarrow>
                   preparedData (snd (call p reduceArgs execute args s)) = None \<and>
                   executed (snd (call p reduceArgs execute args s)) =
                     executed s @ [\<lparr>execAt = clock s, execParam = d, execPending = None\<rparr>])
       else preparedData (snd (call p reduceArgs execute args s))
              = reduceArgs (preparedData s) args \<and>
            executed (snd (call p reduceArgs execute args s)) = executed s)) \<and>
   (invokedAtOrDefault p = Start \<and> \<not> isIdle s \<longrightarrow>
      preparedData (snd (call p reduceArgs execute args s)) = preparedData s \<and>
      executed (snd (call p reduceArgs execute args s)) = executed s)"
proof -
  let ?s1 = "s\<lparr>preparedData := reduceArgs (preparedData s) args\<rparr>"
  have edge: "preparedData (snd (call p reduceArgs execute args s)) = None \<and>
              executed (snd (call p reduceArgs execute args s)) =
                executed s @ (case reduceArgs (preparedData s) args of None \<Rightarrow> []
                   | Some d \<Rightarrow> [\<lparr>execAt = clock s, execParam = d, execPending = None\<rparr>])"
    if "invokedAtOrDefault p \<noteq> End" "isIdle s"
       "reduceArgs (preparedData s) args = None \<or> nonReentrant execute"
  proof (cases "reduceArgs (preparedData s) args")
    case None
    then have "invoke p execute ?s1 = (Returned, ?s1)" by (simp add: invoke_None)
    with that(1,2) None show ?thesis
      by (simp add: call_snd Let_def split: option.splits)
  next
    case (Some d)
    with that(3) have nr: "nonReentrant execute" by simp
    from invoke_effect[OF nr, of ?s1 p] Some
    have "preparedData (snd (invoke p execute ?s1)) = None"
      "executed (snd (invoke p execute ?s1)) =
         executed s @ [\<lparr>execAt = clock s, execParam = d, execPending = None\<rparr>]"
      by auto
    with that(1,2) Some show ?thesis
      by (simp add: call_snd Let_def split: option.splits)
  qed
  have rest: "preparedData (snd (call p reduceArgs execute args s)) =
                (if invokedAtOrDefault p \<noteq> Start \<or> isIdle s
                 then reduceArgs (preparedData s) args else preparedData s) \<and>
              executed (snd (call p reduceArgs execute args s)) = executed s"
    if "invokedAtOrDefault p = End \<or> \<not> isIdle s"
    using that by (auto simp: call_no_invoke Let_def split: option.splits)
  show ?thesis
    using edge rest by (cases "reduceArgs (preparedData s) args") auto
qed

text \<open>
  The theorem at work (C2): the first call of the debouncer folds; a second call on the
  leading-only funnel during its burst does not; the first call of the throttle folds and
  executes.
\<close>

theorem call_folds_args_witness:
  "invokedAtOrDefault debounce32 = End \<and> isIdle (init 0 :: string funnel) \<and>
   preparedData (snd (call debounce32 keepLast quietly ''a'' (init 0))) = Some ''a'' \<and>
   executed (snd (call debounce32 keepLast quietly ''a'' (init 0))) = [] \<and>
   invokedAtOrDefault leading32 = Start \<and> \<not> isIdle bursting \<and>
   preparedData (snd (call leading32 keepLast quietly ''b'' bursting)) = preparedData bursting \<and>
   executed (snd (call leading32 keepLast quietly ''b'' bursting)) = executed bursting \<and>
   invokedAtOrDefault throttle100 = Both \<and> nonReentrant (quietly :: string executor) \<and>
   preparedData (snd (call throttle100 keepLast quietly ''a'' (init 0))) = None \<and>
   executed (snd (call throttle100 keepLast quietly ''a'' (init 0)))
     = [\<lparr>execAt = 0, execParam = ''a'', execPending = None\<rparr>]"
  using call_folds_args[where p = debounce32 and s = "init 0 :: string funnel"
      and reduceArgs = keepLast and args = "''a''" and execute = quietly]
    call_folds_args[where p = leading32 and s = bursting
      and reduceArgs = keepLast and args = "''b''" and execute = quietly]
    call_folds_args[where p = throttle100 and s = "init 0 :: string funnel"
      and reduceArgs = keepLast and args = "''a''" and execute = quietly]
    quietly_nonReentrant[where 'a = string]
  by (simp add: example_defs invokedAtOrDefault_def isIdle_def init_def)

subsection \<open>C3: the start edge\<close>

text \<open>
  Claim C3, as amended. A call on a funnel with \<^verbatim>\<open>invokedAt\<close> \<^verbatim>\<open>"start"\<close> or \<^verbatim>\<open>"both"\<close> finds the
  funnel idle, and \<^verbatim>\<open>reduceArgs\<close> returns a value \<open>d\<close> other than \<^verbatim>\<open>undefined\<close>. Then \<^verbatim>\<open>execute\<close>
  is invoked within the call, on \<open>d\<close>, in the state \<open>entered d (s\<lparr>preparedData := None\<rparr>)\<close>: the
  invocation is recorded and the pending payload is already cleared. The call ends as the
  executor does. If the executor throws, the call leaves the state as the executor left it: no
  timer is set. If it returns, the call goes on from the state the executor left with the last
  part of \<^verbatim>\<open>invoke\<close> and, if \<^verbatim>\<open>burstCoolDownMs\<close> is defined, the burst part of \<^verbatim>\<open>call\<close>: if
  \<^verbatim>\<open>delayMs\<close> is defined, the delay timer is set, under a new handle. The last part of the statement reads this off for an executor that has not
  called back into the funnel: one execution, an empty payload, and the delay timeout pending,
  set now for \<^verbatim>\<open>delayMs\<close>.
\<close>

theorem call_start_edge:
  assumes "invokedAtOrDefault p = Start \<or> invokedAtOrDefault p = Both" and "isIdle s"
    and "reduceArgs (preparedData s) args = Some d"
    and "execute d (entered d (s\<lparr>preparedData := None\<rparr>)) = (out, s2)"
  shows "executed (entered d (s\<lparr>preparedData := None\<rparr>)) =
           executed s @ [\<lparr>execAt = clock s, execParam = d, execPending = None\<rparr>] \<and>
         fst (call p reduceArgs execute args s) = out \<and>
         (out = Threw \<longrightarrow> snd (call p reduceArgs execute args s) = s2) \<and>
         (out = Returned \<longrightarrow>
            snd (call p reduceArgs execute args s) =
              (case burstCoolDownMs p of
                 None \<Rightarrow> armDelay p s2
               | Some coolDown \<Rightarrow> armBurst p coolDown (armDelay p s2)) \<and>
            (case delayMs p of
               None \<Rightarrow> delayTimeoutId (snd (call p reduceArgs execute args s)) = delayTimeoutId s2
             | Some dl \<Rightarrow>
                 delayTimeoutId (snd (call p reduceArgs execute args s)) = Some (nextTimerId s2))) \<and>
         (s2 = entered d (s\<lparr>preparedData := None\<rparr>) \<longrightarrow>
            executed (snd (call p reduceArgs execute args s)) =
              executed s @ [\<lparr>execAt = clock s, execParam = d, execPending = None\<rparr>] \<and>
            preparedData (snd (call p reduceArgs execute args s)) = None \<and>
            (case delayMs p of
               None \<Rightarrow> delayTimeoutId (snd (call p reduceArgs execute args s)) = None
             | Some dl \<Rightarrow>
                 if out = Returned
                 then \<lparr>tid = nextTimerId s, callback = HandleDelayEnd, setAt = clock s, ms = dl\<rparr>
                        \<in> set (timers (snd (call p reduceArgs execute args s)))
                 else delayTimeoutId (snd (call p reduceArgs execute args s)) = None \<and>
                      timers (snd (call p reduceArgs execute args s)) = timers s))"
proof -
  let ?s1 = "s\<lparr>preparedData := reduceArgs (preparedData s) args\<rparr>"
  let ?in = "entered d (s\<lparr>preparedData := None\<rparr>)"
  have idle: "burstTimeoutId s = None" "delayTimeoutId s = None"
    using assms(2) by (simp_all add: isIdle_def)
  have i: "invoke p execute ?s1 = (case out of Threw \<Rightarrow> (Threw, s2)
                                   | Returned \<Rightarrow> (Returned, armDelay p s2))"
    using assms(3,4) by (cases out) (simp_all add: invoke_def)
  have c: "call p reduceArgs execute args s =
             (case out of
                Threw \<Rightarrow> (Threw, s2)
              | Returned \<Rightarrow>
                  (Returned, case burstCoolDownMs p of None \<Rightarrow> armDelay p s2
                             | Some coolDown \<Rightarrow> armBurst p coolDown (armDelay p s2)))"
    using assms(1) idle i
    by (cases out) (auto simp: call_def Let_def split: option.splits)
  have dl: "delayTimeoutId (armDelay p s2) =
              (case delayMs p of None \<Rightarrow> delayTimeoutId s2 | Some dl \<Rightarrow> Some (nextTimerId s2))"
    by (rule armDelay_delay)
  have general: "fst (call p reduceArgs execute args s) = out"
    "out = Threw \<longrightarrow> snd (call p reduceArgs execute args s) = s2"
    "out = Returned \<longrightarrow>
       (case delayMs p of
          None \<Rightarrow> delayTimeoutId (snd (call p reduceArgs execute args s)) = delayTimeoutId s2
        | Some dl \<Rightarrow>
            delayTimeoutId (snd (call p reduceArgs execute args s)) = Some (nextTimerId s2))"
    unfolding c using dl
    by (cases out; cases "burstCoolDownMs p"; cases "delayMs p"; simp)+
  have exact: "out = Returned \<longrightarrow>
       snd (call p reduceArgs execute args s) =
         (case burstCoolDownMs p of
            None \<Rightarrow> armDelay p s2
          | Some coolDown \<Rightarrow> armBurst p coolDown (armDelay p s2))"
    unfolding c by (cases out) simp_all
  have quiet: "executed (snd (call p reduceArgs execute args s)) =
              executed s @ [\<lparr>execAt = clock s, execParam = d, execPending = None\<rparr>] \<and>
            preparedData (snd (call p reduceArgs execute args s)) = None \<and>
            (case delayMs p of
               None \<Rightarrow> delayTimeoutId (snd (call p reduceArgs execute args s)) = None
             | Some dl \<Rightarrow>
                 if out = Returned
                 then \<lparr>tid = nextTimerId s, callback = HandleDelayEnd, setAt = clock s, ms = dl\<rparr>
                        \<in> set (timers (snd (call p reduceArgs execute args s)))
                 else delayTimeoutId (snd (call p reduceArgs execute args s)) = None \<and>
                      timers (snd (call p reduceArgs execute args s)) = timers s)"
    if s2: "s2 = ?in"
  proof -
    have t: "timers (armDelay p ?in) =
               (case delayMs p of None \<Rightarrow> timers s
                | Some dl \<Rightarrow> timers s @
                    [\<lparr>tid = nextTimerId s, callback = HandleDelayEnd, setAt = clock s, ms = dl\<rparr>])"
      by (simp add: armDelay_def setTimeout_def split: option.splits)
    have b: "burstTimeoutId (armDelay p ?in) = None"
      using idle by simp
    have keep: "set (timers (armDelay p ?in)) \<subseteq> set (timers (armBurst p coolDown (armDelay p ?in)))"
      for coolDown
      using b by (auto simp: armBurst_def setTimeout_def clearTimeout_def Let_def)
    show ?thesis
      unfolding c s2 using t keep idle
      by (cases out; cases "burstCoolDownMs p"; cases "delayMs p")
         (auto simp: armDelay_delay)
  qed
  show ?thesis
    using general exact quiet by simp
qed

text \<open>The theorem at work (C3): the first call of the throttle.\<close>

theorem call_start_edge_witness:
  "(invokedAtOrDefault throttle100 = Start \<or> invokedAtOrDefault throttle100 = Both) \<and>
   isIdle (init 0 :: string funnel) \<and>
   keepLast (preparedData (init 0)) ''a'' = Some ''a'' \<and>
   fst (call throttle100 keepLast quietly ''a'' (init 0)) = Returned \<and>
   executed (snd (call throttle100 keepLast quietly ''a'' (init 0)))
     = [\<lparr>execAt = 0, execParam = ''a'', execPending = None\<rparr>] \<and>
   preparedData (snd (call throttle100 keepLast quietly ''a'' (init 0))) = None \<and>
   delayTimeoutId (snd (call throttle100 keepLast quietly ''a'' (init 0))) = Some 0 \<and>
   \<lparr>tid = 0, callback = HandleDelayEnd, setAt = 0, ms = 100\<rparr>
     \<in> set (timers (snd (call throttle100 keepLast quietly ''a'' (init 0))))"
proof -
  let ?s = "init 0 :: string funnel"
  let ?in = "entered ''a'' (?s\<lparr>preparedData := None\<rparr>)"
  have h1: "invokedAtOrDefault throttle100 = Start \<or> invokedAtOrDefault throttle100 = Both"
    by (simp add: example_defs invokedAtOrDefault_def)
  have h2: "isIdle ?s" by (simp add: isIdle_def init_def)
  have h3: "keepLast (preparedData ?s) ''a'' = Some ''a''" by (simp add: keepLast_def)
  have h4: "quietly ''a'' ?in = (Returned, ?in)" by (simp add: quietly_def)
  note r = call_start_edge[where p = throttle100 and s = ?s and reduceArgs = keepLast
      and args = "''a''" and d = "''a''" and execute = quietly and out = Returned
      and ?s2.0 = ?in, OF h1 h2 h3 h4]
  from r[THEN conjunct2, THEN conjunct1]
  have a: "fst (call throttle100 keepLast quietly ''a'' ?s) = Returned" .
  from r[THEN conjunct2, THEN conjunct2, THEN conjunct2, THEN conjunct1, THEN mp, OF refl,
      THEN conjunct2]
  have b: "delayTimeoutId (snd (call throttle100 keepLast quietly ''a'' ?s)) = Some 0"
    by (simp add: throttle100_def init_def entered_def)
  from r[THEN conjunct2, THEN conjunct2, THEN conjunct2, THEN conjunct2]
  have c: "executed (snd (call throttle100 keepLast quietly ''a'' ?s))
             = [\<lparr>execAt = 0, execParam = ''a'', execPending = None\<rparr>] \<and>
           preparedData (snd (call throttle100 keepLast quietly ''a'' ?s)) = None \<and>
           \<lparr>tid = 0, callback = HandleDelayEnd, setAt = 0, ms = 100\<rparr>
             \<in> set (timers (snd (call throttle100 keepLast quietly ''a'' ?s)))"
    by (simp add: throttle100_def init_def)
  from a b c h1 h2 h3 show ?thesis by blast
qed

text \<open>
  C3 fails as the claim states it in two cases, both on the throttle, idle, with a delay of
  100 ms. When the reducer returns \<^verbatim>\<open>undefined\<close> (here \<^verbatim>\<open>call()\<close> with no argument),
  \<^verbatim>\<open>invoke\<close> finds no payload: the executor is not invoked and no delay timer is set. When the
  executor throws, it has been invoked, but the delay timer is not set.
\<close>

theorem call_start_edge_counterexample:
  "invokedAtOrDefault throttle100 = Both \<and> delayMs throttle100 = Some 100 \<and>
   isIdle (init 0 :: string funnel) \<and>
   executed (snd (call throttle100 optionalValue quietly None (init 0))) = [] \<and>
   delayTimeoutId (snd (call throttle100 optionalValue quietly None (init 0))) = None \<and>
   executed (snd (call throttle100 keepLast throwing ''a'' (init 0)))
     = [\<lparr>execAt = 0, execParam = ''a'', execPending = None\<rparr>] \<and>
   fst (call throttle100 keepLast throwing ''a'' (init 0)) = Threw \<and>
   delayTimeoutId (snd (call throttle100 keepLast throwing ''a'' (init 0))) = None \<and>
   timers (snd (call throttle100 keepLast throwing ''a'' (init 0))) = []"
  by (simp add: eval_defs example_defs)

subsection \<open>C4: flush\<close>

text \<open>
  Claim C4 says that \<^verbatim>\<open>flush\<close> hands a pending payload to \<^verbatim>\<open>execute\<close> exactly once and leaves the
  funnel idle. The first half holds in every state (\<open>flush_effect\<close>). The second half holds
  when no delay timeout was pending, no payload was pending, or no \<^verbatim>\<open>delayMs\<close> is configured
  (\<open>flush_idle\<close>): \<^verbatim>\<open>handleBurstEnd\<close> then runs \<^verbatim>\<open>invoke\<close>, and \<^verbatim>\<open>handleDelayEnd\<close> clears the delay
  timeout \<^verbatim>\<open>invoke\<close> has just set. But when a delay timeout and a payload are pending, it is
  \<^verbatim>\<open>handleDelayEnd\<close> that runs \<^verbatim>\<open>invoke\<close>, nothing clears the new delay timeout, and the funnel is
  not idle after \<^verbatim>\<open>flush\<close> (\<open>flush_not_idle\<close>), against the documentation of \<^verbatim>\<open>flush\<close> in the
  source ("resets the funnel to it's initial state"). Here on the throttle, with an executor
  that returns: a call at 0 ms executes, a call at 10 ms is kept, and \<^verbatim>\<open>flush\<close> at 20 ms
  executes it and leaves a delay timeout pending.
\<close>

theorem flush_during_delay_stays_active:
  "run throttle100 keepLast quietly [Call 0 ''a'', Call 10 ''b'', Flush 20] (init 0) =
     Some \<lparr>burstTimeoutId = None, delayTimeoutId = Some 1, preparedData = None,
           burstStartTimestamp = None,
           timers = [\<lparr>tid = 1, callback = HandleDelayEnd, setAt = 20, ms = 100\<rparr>],
           nextTimerId = 2, clock = 20,
           executed = [\<lparr>execAt = 0, execParam = ''a'', execPending = None\<rparr>,
                       \<lparr>execAt = 20, execParam = ''b'', execPending = None\<rparr>]\<rparr> \<and>
   \<not> isIdle (the (run throttle100 keepLast quietly
                     [Call 0 ''a'', Call 10 ''b'', Flush 20] (init 0)))"
  by (simp add: eval_defs example_defs)

subsection \<open>C5: no end-edge execution inside a call\<close>

text \<open>
  Claim C5. On a funnel with \<^verbatim>\<open>invokedAt = "end"\<close> a call never runs \<^verbatim>\<open>execute\<close>, whatever
  \<^verbatim>\<open>burstCoolDownMs\<close> and \<^verbatim>\<open>delayMs\<close> are, zero included, and whatever the reducer and the
  executor are; an event that runs \<^verbatim>\<open>execute\<close> is a timeout firing or a \<^verbatim>\<open>flush\<close>.
\<close>

theorem call_end_defers:
  assumes "invokedAtOrDefault p = End"
  shows "executed (snd (call p reduceArgs execute args s)) = executed s \<and>
         (\<forall>e s'. step p reduceArgs execute e s = Some s' \<and> executed s' \<noteq> executed s \<longrightarrow>
            (\<exists>t i. e = Fire t i) \<or> (\<exists>t. e = Flush t))"
proof -
  have c: "executed (snd (call p reduceArgs execute args s)) = executed s" for args s
    by (rule call_end_effect(1)[OF assms])
  have k: "executed (cancel s) = executed s" for s :: "'a funnel"
    by (simp add: cancel_def Let_def)
  show ?thesis
  proof (intro conjI allI impI)
    show "executed (snd (call p reduceArgs execute args s)) = executed s" by (rule c)
  next
    fix e s'
    assume "step p reduceArgs execute e s = Some s' \<and> executed s' \<noteq> executed s"
    then show "(\<exists>t i. e = Fire t i) \<or> (\<exists>t. e = Flush t)"
      by (cases e) (auto simp: step_def c k Let_def split: if_splits)
  qed
qed

text \<open>
  The theorem at work (C5), with a cool-down and a delay of 0 ms: the call executes nothing;
  the burst timeout, fired in a later frame at the same millisecond, does.
\<close>

theorem call_end_defers_witness:
  "invokedAtOrDefault immediate = End \<and>
   burstCoolDownMs immediate = Some 0 \<and> delayMs immediate = Some 0 \<and>
   executed (snd (call immediate keepLast quietly ''a'' (init 0))) = [] \<and>
   step immediate keepLast quietly (Fire 0 0) (snd (call immediate keepLast quietly ''a'' (init 0)))
     \<noteq> None \<and>
   executed (the (step immediate keepLast quietly (Fire 0 0)
                    (snd (call immediate keepLast quietly ''a'' (init 0)))))
     = [\<lparr>execAt = 0, execParam = ''a'', execPending = None\<rparr>] \<and>
   isFire (Fire 0 0 :: string event)"
proof -
  let ?s = "snd (call immediate keepLast quietly ''a'' (init 0))"
  have h: "invokedAtOrDefault immediate = End" by (simp add: example_defs invokedAtOrDefault_def)
  have p: "burstCoolDownMs immediate = Some 0" "delayMs immediate = Some 0"
    by (simp_all add: example_defs)
  have i: "executed (init 0 :: string funnel) = []" by (simp add: init_def)
  have ne: "step immediate keepLast quietly (Fire 0 0) ?s \<noteq> None"
    by (simp add: eval_defs example_defs)
  have ex: "executed (the (step immediate keepLast quietly (Fire 0 0) ?s))
              = [\<lparr>execAt = 0, execParam = ''a'', execPending = None\<rparr>]"
    by (simp add: eval_defs example_defs)
  have f: "isFire (Fire 0 0 :: string event)" by simp
  from call_end_defers[OF h, where reduceArgs = keepLast and execute = quietly
      and args = "''a''" and s = "init 0"] i
  have c: "executed ?s = []" by simp
  from call_end_defers[OF h, where reduceArgs = keepLast and execute = quietly
      and args = "''a''" and s = ?s] h p c ne ex f show ?thesis by blast
qed

subsection \<open>C6: the delay between executions\<close>

text \<open>
  Claim C6, as amended. When \<^verbatim>\<open>delayMs\<close> is defined and the executor always returns and never
  calls back into the funnel, then for every sequence of calls and timeout firings (timeouts
  may fire late, never early) from the initial state, no two consecutive executions are closer
  together than \<^verbatim>\<open>delayMs\<close>.
\<close>

theorem delay_spacing:
  assumes "delayMs p = Some d" and "nonReentrant execute" and "neverThrows execute"
    and "\<forall>e \<in> set evs. isCall e \<or> isFire e"
    and "run p reduceArgs execute evs (init t0) = Some s"
  shows "minGap d (execTimes s)"
proof -
  have "spacing d s'" if "spacing d s0" "\<forall>e \<in> set es. isCall e \<or> isFire e"
    "run p reduceArgs execute es s0 = Some s'" for es s0 s'
    using that
  proof (induction es arbitrary: s0)
    case Nil
    then show ?case by simp
  next
    case (Cons e es)
    then obtain s1 where s1: "step p reduceArgs execute e s0 = Some s1"
      "run p reduceArgs execute es s1 = Some s'"
      by (auto split: option.splits)
    from Cons.prems(2) have "isCall e \<or> isFire e" by simp
    from spacing_step[OF assms(2,3) Cons.prems(1) assms(1) this s1(1)] have "spacing d s1" .
    with Cons.IH[of s1] Cons.prems(2) s1(2) show ?case by simp
  qed
  from this[OF spacing_init assms(4,5)] show ?thesis by (simp add: spacing_def)
qed

text \<open>The theorem at work (C6): two executions, 100 ms apart.\<close>

theorem delay_spacing_witness:
  "delayMs debounceDelay = Some 100 \<and>
   nonReentrant (quietly :: string executor) \<and> neverThrows (quietly :: string executor) \<and>
   list_all (\<lambda>e. isCall e \<or> isFire e) [Call 0 ''a'', Fire 10 0, Call 20 ''b'', Fire 110 1] \<and>
   run debounceDelay keepLast quietly [Call 0 ''a'', Fire 10 0, Call 20 ''b'', Fire 110 1] (init 0)
     \<noteq> None \<and>
   execTimes (the (run debounceDelay keepLast quietly
       [Call 0 ''a'', Fire 10 0, Call 20 ''b'', Fire 110 1] (init 0))) = [10, 110] \<and>
   minGap 100 (execTimes (the (run debounceDelay keepLast quietly
       [Call 0 ''a'', Fire 10 0, Call 20 ''b'', Fire 110 1] (init 0))))"
proof -
  let ?evs = "[Call 0 ''a'', Fire 10 0, Call 20 ''b'', Fire 110 1] :: string event list"
  let ?q = "quietly :: string executor"
  have h1: "delayMs debounceDelay = Some 100" by (simp add: example_defs)
  have q: "nonReentrant ?q" "neverThrows ?q"
    by (rule quietly_nonReentrant, rule quietly_neverThrows)
  have h2: "\<forall>e \<in> set ?evs. isCall e \<or> isFire e" by simp
  have h3: "run debounceDelay keepLast ?q ?evs (init 0)
              = Some (the (run debounceDelay keepLast ?q ?evs (init 0)))"
    by (simp add: eval_defs example_defs)
  have t: "execTimes (the (run debounceDelay keepLast ?q ?evs (init 0))) = [10, 110]"
    by (simp add: eval_defs example_defs execTimes_def)
  have ne: "run debounceDelay keepLast ?q ?evs (init 0) \<noteq> None"
    by (simp add: eval_defs example_defs)
  have l: "list_all (\<lambda>e. isCall e \<or> isFire e) ?evs" by simp
  from delay_spacing[OF h1 q h2 h3] h1 q l ne t show ?thesis by blast
qed

text \<open>
  C6 fails as the claim states it, with a delay of 100 ms, in three ways. With \<^verbatim>\<open>flush\<close> among
  the events: \<^verbatim>\<open>flush\<close> executes whatever timers are live, here at 30 ms after an execution at
  10 ms. With an executor that throws: \<^verbatim>\<open>invoke\<close> is left before the delay timeout is set, the
  funnel stays idle, and the next call executes, here at 1 ms after an execution at 0 ms. With
  an executor that calls \<^verbatim>\<open>call\<close>: the delay timeout is not set yet, the funnel is idle, and the
  nested call executes in the same millisecond.
\<close>

theorem delay_spacing_counterexample:
  "delayMs debounceDelay = Some 100 \<and>
   run debounceDelay keepLast quietly [Call 0 ''a'', Fire 10 0, Call 20 ''b'', Flush 30] (init 0)
     \<noteq> None \<and>
   execTimes (the (run debounceDelay keepLast quietly
       [Call 0 ''a'', Fire 10 0, Call 20 ''b'', Flush 30] (init 0))) = [10, 30] \<and>
   \<not> minGap 100 (execTimes (the (run debounceDelay keepLast quietly
       [Call 0 ''a'', Fire 10 0, Call 20 ''b'', Flush 30] (init 0)))) \<and>
   delayMs throttle100 = Some 100 \<and>
   run throttle100 keepLast throwing [Call 0 ''a'', Call 1 ''b''] (init 0) \<noteq> None \<and>
   execTimes (the (run throttle100 keepLast throwing [Call 0 ''a'', Call 1 ''b''] (init 0)))
     = [0, 1] \<and>
   \<not> minGap 100 (execTimes (the (run throttle100 keepLast throwing
       [Call 0 ''a'', Call 1 ''b''] (init 0)))) \<and>
   run throttle100 keepLast (reentering throttle100 keepLast ''x'') [Call 0 ''a''] (init 0)
     \<noteq> None \<and>
   executed (the (run throttle100 keepLast (reentering throttle100 keepLast ''x'')
       [Call 0 ''a''] (init 0)))
     = [\<lparr>execAt = 0, execParam = ''a'', execPending = None\<rparr>,
        \<lparr>execAt = 0, execParam = ''x'', execPending = None\<rparr>] \<and>
   \<not> minGap 100 (execTimes (the (run throttle100 keepLast
       (reentering throttle100 keepLast ''x'') [Call 0 ''a''] (init 0))))"
  by (simp add: eval_defs example_defs execTimes_def)

subsection \<open>C7: setting the burst timeout again\<close>

text \<open>
  Claim C7. A call reaches the last part of \<^verbatim>\<open>call\<close> when \<^verbatim>\<open>burstCoolDownMs\<close> is defined, the
  burst timeout is live or the funnel was idle, and the call has not been left by a throw of
  the executor. It then clears the burst timeout there was: no timeout under the old handle is
  left among the pending ones. The start of the burst is recorded only if none was recorded.
  The timeout set last is the new burst timeout, set now, for \<^verbatim>\<open>burstCoolDownMs\<close> when
  \<^verbatim>\<open>maxBurstDurationMs\<close> is undefined, and otherwise for the smaller of \<^verbatim>\<open>burstCoolDownMs\<close> and
  \<^verbatim>\<open>maxBurstDurationMs - (now - burstStartTimestamp)\<close>, with \<open>now\<close> the clock of this call. In
  a state where handles and pending timeouts describe each other (\<open>owned_run\<close>), the new handle
  differs from the old one and the new timeout is the only burst timeout pending. The state
  before the call is the reference, so the executor is one that does not call back into the
  funnel.
\<close>

theorem call_rearms_burst:
  assumes "burstCoolDownMs p = Some W" and "burstTimeoutId s \<noteq> None \<or> isIdle s"
    and "nonReentrant execute" and "fst (call p reduceArgs execute args s) = Returned"
  shows "\<exists>i. burstTimeoutId (snd (call p reduceArgs execute args s)) = Some i \<and>
             burstStartTimestamp (snd (call p reduceArgs execute args s)) =
               Some (case burstStartTimestamp s of None \<Rightarrow> clock s | Some b \<Rightarrow> b) \<and>
             timers (snd (call p reduceArgs execute args s)) \<noteq> [] \<and>
             last (timers (snd (call p reduceArgs execute args s))) =
               \<lparr>tid = i, callback = HandleBurstEnd, setAt = clock s,
                ms = (case maxBurstDurationMs p of
                        None \<Rightarrow> W
                      | Some m \<Rightarrow> min W (m - (clock s -
                          (case burstStartTimestamp s of None \<Rightarrow> clock s | Some b \<Rightarrow> b))))\<rparr> \<and>
             (\<forall>t \<in> set (butlast (timers (snd (call p reduceArgs execute args s)))).
                Some (tid t) \<noteq> burstTimeoutId s) \<and>
             (owned s \<longrightarrow>
                burstTimeoutId s \<noteq> Some i \<and>
                filter (\<lambda>t. callback t = HandleBurstEnd)
                    (timers (snd (call p reduceArgs execute args s))) =
                  [last (timers (snd (call p reduceArgs execute args s)))])"
proof -
  define s1 where "s1 = (if invokedAtOrDefault p \<noteq> Start \<or> isIdle s
      then s\<lparr>preparedData := reduceArgs (preparedData s) args\<rparr> else s)"
  define s2 where "s2 = (if invokedAtOrDefault p \<noteq> End \<and> isIdle s
      then snd (invoke p execute s1) else s1)"
  define start where "start = (case burstStartTimestamp s of None \<Rightarrow> clock s | Some b \<Rightarrow> b)"
  define new where "new = \<lparr>tid = nextTimerId s2, callback = HandleBurstEnd, setAt = clock s,
      ms = burstRemainingMs p W (clock s) start\<rparr>"
  have nt: "\<not> (invokedAtOrDefault p \<noteq> End \<and> isIdle s \<and> fst (invoke p execute s1) = Threw)"
    using assms(4) by (auto simp: call_fst s1_def)
  have b2: "burstTimeoutId s2 = burstTimeoutId s" "burstStartTimestamp s2 = burstStartTimestamp s"
    "clock s2 = clock s" "nextTimerId s \<le> nextTimerId s2"
    using invoke_next[OF assms(3), of s1 p]
    by (auto simp: s2_def s1_def invoke_frame[OF assms(3)])
  have c: "snd (call p reduceArgs execute args s) = armBurst p W s2"
    using assms(1,2) nt b2(1)
    by (auto simp: call_snd s2_def s1_def Let_def isIdle_def)
  have tm: "timers (armBurst p W s2) = timers (clearTimeout (burstTimeoutId s) s2) @ [new]"
    and id: "burstTimeoutId (armBurst p W s2) = Some (nextTimerId s2)"
    and st: "burstStartTimestamp (armBurst p W s2) = Some start"
    using b2(1,2,3)
    by (simp_all add: armBurst_def Let_def setTimeout_def clearTimeout_def new_def start_def
          split: option.splits)
  have cleared: "\<forall>t \<in> set (timers (clearTimeout (burstTimeoutId s) s2)).
                   Some (tid t) \<noteq> burstTimeoutId s"
    by (auto simp: clearTimeout_def split: option.splits)
  have own: "burstTimeoutId s \<noteq> Some (nextTimerId s2) \<and>
             filter (\<lambda>t. callback t = HandleBurstEnd) (timers (armBurst p W s2)) = [new]"
    if o: "owned s"
  proof -
    have "owned s1" using o by (simp add: s1_def owned_prepared)
    then have o2: "owned s2"
      using owned_invoke[OF assms(3), of s1 p] by (auto simp: s2_def s1_def isIdle_def)
    have old: "burstTimeoutId s \<noteq> Some (nextTimerId s2)"
      using o b2(4) by (auto simp: owned_def)
    have "filter (\<lambda>t. callback t = HandleBurstEnd)
            (timers (clearTimeout (burstTimeoutId s) s2)) = []"
      using o2 b2(1)
      by (auto simp: owned_def clearTimeout_def filter_empty_conv split: option.splits)
    with old show ?thesis by (simp add: tm new_def)
  qed
  show ?thesis
    unfolding c using tm id st cleared own
    by (auto simp: new_def start_def burstRemainingMs_def split: option.splits)
qed

text \<open>
  The theorem at work (C7): 30 ms into a burst capped at 50 ms, a call sets the timeout for
  20 ms, not for the cool-down of 32 ms, and keeps the start of the burst.
\<close>

theorem call_rearms_burst_witness:
  "burstCoolDownMs capped = Some 32 \<and> burstTimeoutId cappedBurst \<noteq> None \<and> owned cappedBurst \<and>
   nonReentrant (quietly :: string executor) \<and>
   fst (call capped keepLast quietly ''b'' cappedBurst) = Returned \<and>
   burstTimeoutId (snd (call capped keepLast quietly ''b'' cappedBurst)) = Some 1 \<and>
   burstStartTimestamp (snd (call capped keepLast quietly ''b'' cappedBurst)) = Some 0 \<and>
   filter (\<lambda>t. callback t = HandleBurstEnd)
       (timers (snd (call capped keepLast quietly ''b'' cappedBurst)))
     = [\<lparr>tid = 1, callback = HandleBurstEnd, setAt = 30, ms = 20\<rparr>]"
proof -
  have h1: "burstCoolDownMs capped = Some 32" by (simp add: example_defs)
  have h2: "burstTimeoutId cappedBurst \<noteq> None \<or> isIdle cappedBurst" by (simp add: example_defs)
  have h3: "owned cappedBurst" by (simp add: example_defs owned_def)
  have h4: "nonReentrant (quietly :: string executor)" by (rule quietly_nonReentrant)
  have h5: "fst (call capped keepLast quietly ''b'' cappedBurst) = Returned"
    by (simp add: eval_defs example_defs)
  from call_rearms_burst[OF h1 h2 h4 h5] h1 h3 h4 h5 show ?thesis
    by (auto simp: example_defs eval_defs)
qed

subsection \<open>C8: a call during a delay starts no burst\<close>

text \<open>
  Claim C8. A call made while the burst timeout is not live and the delay timeout is returns,
  and changes nothing but the pending payload, which it folds unless \<^verbatim>\<open>invokedAt\<close> is
  \<^verbatim>\<open>"start"\<close>: no burst timeout is set, no start of a burst is recorded, nothing is executed, and
  the host's pending timeouts are as before. This holds whether or not \<^verbatim>\<open>burstCoolDownMs\<close> is
  defined, for every reducer and executor.
\<close>

theorem call_during_delay:
  assumes "burstTimeoutId s = None" and "delayTimeoutId s \<noteq> None"
  shows "call p reduceArgs execute args s =
           (Returned,
            s\<lparr>preparedData := (if invokedAtOrDefault p = Start then preparedData s
                                 else reduceArgs (preparedData s) args)\<rparr>)"
  using assms by (auto simp: call_no_invoke isIdle_def Let_def split: option.splits)

text \<open>The theorem at work (C8), on a funnel with a cool-down and a delay.\<close>

theorem call_during_delay_witness:
  "burstCoolDownMs debounceDelay = Some 10 \<and>
   burstTimeoutId delaying = None \<and> delayTimeoutId delaying \<noteq> None \<and>
   call debounceDelay keepLast quietly ''b'' delaying
     = (Returned, delaying\<lparr>preparedData := Some ''b''\<rparr>)"
  using call_during_delay[where s = delaying and p = debounceDelay and reduceArgs = keepLast
      and execute = quietly and args = "''b''"]
  by (simp add: example_defs invokedAtOrDefault_def)

subsection \<open>C9: cancel\<close>

text \<open>
  Claim C9. From every state \<^verbatim>\<open>cancel\<close> clears both handles and the start of the burst and
  drops the pending payload, without running \<^verbatim>\<open>execute\<close>; the funnel is idle afterwards; a second
  \<^verbatim>\<open>cancel\<close> changes nothing; and, \<open>cancel\<close> being a total function, it never throws. No
  timeout under either of the two handles is pending afterwards; in a state where handles and
  pending timeouts describe each other (\<open>owned_run\<close>), no timeout at all is.
\<close>

theorem cancel_resets:
  "burstTimeoutId (cancel s) = None \<and> delayTimeoutId (cancel s) = None \<and>
   burstStartTimestamp (cancel s) = None \<and> preparedData (cancel s) = None \<and>
   executed (cancel s) = executed s \<and> isIdle (cancel s) \<and>
   cancel (cancel s) = cancel s \<and>
   (\<forall>t \<in> set (timers (cancel s)).
      Some (tid t) \<noteq> burstTimeoutId s \<and> Some (tid t) \<noteq> delayTimeoutId s) \<and>
   (owned s \<longrightarrow> timers (cancel s) = [])"
proof -
  have "timers (cancel s) = []" if "owned s"
  proof -
    have "t \<notin> set (timers (cancel s))" for t
      using that by (cases "callback t")
        (auto simp: owned_def cancel_def clearTimeout_def Let_def split: option.splits)
    then show ?thesis by (meson last_in_set)
  qed
  moreover have "\<forall>t \<in> set (timers (cancel s)).
      Some (tid t) \<noteq> burstTimeoutId s \<and> Some (tid t) \<noteq> delayTimeoutId s"
    by (auto simp: cancel_def clearTimeout_def Let_def split: option.splits)
  ultimately show ?thesis
    by (simp add: cancel_def clearTimeout_def isIdle_def Let_def split: option.splits)
qed

text \<open>The theorem at work (C9): cancelling during a burst.\<close>

theorem cancel_resets_witness:
  "owned bursting \<and> timers bursting \<noteq> [] \<and> timers (cancel bursting) = [] \<and>
   isIdle (cancel bursting) \<and> preparedData (cancel bursting) = None \<and>
   executed (cancel bursting) = executed bursting"
proof -
  have h: "owned bursting" by (simp add: example_defs owned_def)
  from cancel_resets[of bursting] h show ?thesis by (simp add: example_defs)
qed

subsection \<open>C10: a trailing funnel without a cool-down only accumulates\<close>

text \<open>
  Claim C10. If \<^verbatim>\<open>burstCoolDownMs\<close> is undefined and \<^verbatim>\<open>invokedAt\<close> is \<^verbatim>\<open>"end"\<close>, then every sequence
  of calls, at times that do not go back, runs to its end; \<^verbatim>\<open>execute\<close> is never run and no
  timeout is set, with or without \<^verbatim>\<open>delayMs\<close>; an idle funnel stays idle; and the pending
  payload is the fold of all the calls' arguments onto the payload there was.
\<close>

theorem end_without_burst_accumulates:
  assumes "invokedAtOrDefault p = End" and "burstCoolDownMs p = None"
    and "\<forall>e \<in> set evs. isCall e" and "sorted (clock s # map eventTime evs)"
  shows "\<exists>s'. run p reduceArgs execute evs s = Some s' \<and>
           executed s' = executed s \<and> timers s' = timers s \<and>
           nextTimerId s' = nextTimerId s \<and>
           burstTimeoutId s' = burstTimeoutId s \<and> delayTimeoutId s' = delayTimeoutId s \<and>
           isIdle s' = isIdle s \<and>
           preparedData s' = foldArgs reduceArgs (preparedData s) (callArgs evs)"
  using assms(3,4)
proof (induction evs arbitrary: s)
  case Nil
  then show ?case by (simp add: foldArgs_def)
next
  case (Cons e es)
  from Cons.prems obtain t a where e: "e = Call t a" by (cases e) auto
  let ?s1 = "snd (call p reduceArgs execute a (s\<lparr>clock := t\<rparr>))"
  have st: "step p reduceArgs execute e s = Some ?s1"
    using Cons.prems e by (simp add: step_def)
  have s1: "?s1 = s\<lparr>clock := t, preparedData := reduceArgs (preparedData s) a\<rparr>"
    by (simp add: call_no_burst_end[OF assms(1,2)])
  have "sorted (clock ?s1 # map eventTime es)"
    using Cons.prems e by (simp add: s1)
  with Cons.IH[of ?s1] Cons.prems obtain s' where
    "run p reduceArgs execute es ?s1 = Some s'" "executed s' = executed ?s1"
    "timers s' = timers ?s1" "nextTimerId s' = nextTimerId ?s1"
    "burstTimeoutId s' = burstTimeoutId ?s1" "delayTimeoutId s' = delayTimeoutId ?s1"
    "isIdle s' = isIdle ?s1"
    "preparedData s' = foldArgs reduceArgs (preparedData ?s1) (callArgs es)"
    by auto
  then show ?case using st e
    by (simp add: s1 foldArgs_def isIdle_def)
qed

text \<open>The theorem at work (C10), with a delay configured.\<close>

theorem end_without_burst_accumulates_witness:
  "invokedAtOrDefault delayOnly = End \<and> burstCoolDownMs delayOnly = None \<and>
   delayMs delayOnly = Some 100 \<and>
   run delayOnly collect quietly [Call 0 ''a'', Call 5 ''b'', Call 1000 ''c''] (init 0)
     = Some ((init 0)\<lparr>clock := 1000, preparedData := Some [''a'', ''b'', ''c'']\<rparr>)"
proof -
  let ?evs = "[Call 0 ''a'', Call 5 ''b'', Call 1000 ''c''] :: string event list"
  have h1: "invokedAtOrDefault delayOnly = End" "burstCoolDownMs delayOnly = None"
    by (simp_all add: example_defs invokedAtOrDefault_def)
  have h3: "\<forall>e \<in> set ?evs. isCall e" by simp
  have h4: "sorted (clock (init 0 :: string list funnel) # map eventTime ?evs)"
    by (simp add: init_def)
  from end_without_burst_accumulates[OF h1 h3 h4, where reduceArgs = collect
      and execute = quietly] h1 show ?thesis
    by (auto simp: eval_defs example_defs)
qed

end
